theory Spec2Isabelle
  imports Complex_Main
begin

text \<open>
  A model of \<^verbatim>\<open>utils_node2vec.py\<close>, the data preparation of a traffic forecasting
  model: the windowed dataset \<^verbatim>\<open>MyDataset\<close> and the loader factory
  \<^verbatim>\<open>generate_dataset\<close>; the steps of \<^verbatim>\<open>read_data\<close> that build the semantic and
  the spatial distance matrix, sample the node subset and derive the two similarity
  matrices; \<^verbatim>\<open>generate_graph\<close>; and \<^verbatim>\<open>get_normalized_adj\<close>.

  Python floats are modelled as real numbers. What the source calls in its libraries and
  cannot be read from it is a parameter of the model: the alignment engine
  \<^verbatim>\<open>fastdtw\<close>, the permutation drawn by \<^verbatim>\<open>np.random.choice\<close>, the parsers
  \<^verbatim>\<open>int\<close> and \<^verbatim>\<open>float\<close> of a string, and the embedding table that node2vec
  trains. Indexing, slicing and broadcasting follow numpy and torch, with their
  exceptions as values.
\<close>

section \<open>Python values: failures, truncation, slices\<close>

text \<open>
  Every exception the modelled functions of \<^verbatim>\<open>utils_node2vec.py\<close> can raise
  is a value of \<open>error\<close>; a fallible function returns \<open>error + 'a\<close> with
  \<open>Inl\<close> for the raise.
\<close>

datatype error = IndexError | ValueError | KeyError

text \<open>A statement that may raise, followed by the rest of the block.\<close>

definition bind :: "error + 'a \<Rightarrow> ('a \<Rightarrow> error + 'b) \<Rightarrow> error + 'b" where
  "bind r f = (case r of Inl e \<Rightarrow> Inl e | Inr x \<Rightarrow> f x)"

text \<open>\<^verbatim>\<open>int(x)\<close> on a float truncates toward zero.\<close>

definition py_int :: "real \<Rightarrow> int" where
  "py_int x = (if 0 \<le> x then \<lfloor>x\<rfloor> else \<lceil>x\<rceil>)"

text \<open>
  \<^verbatim>\<open>xs[a:b]\<close>: a negative bound counts from the end, and every bound is clamped
  to \<open>[0, len]\<close>; a slice never raises.
\<close>

definition slice_bound :: "nat \<Rightarrow> int \<Rightarrow> nat" where
  "slice_bound n i = (if i < 0 then nat (max 0 (int n + i)) else min n (nat i))"

definition py_slice :: "'a list \<Rightarrow> int \<Rightarrow> int \<Rightarrow> 'a list" where
  "py_slice xs a b =
     (let lo = slice_bound (length xs) a; hi = slice_bound (length xs) b
      in take (hi - lo) (drop lo xs))"

text \<open>
  The builtin \<^verbatim>\<open>len(obj)\<close> raises \<^verbatim>\<open>ValueError\<close> when
  \<^verbatim>\<open>obj.__len__()\<close> is negative.
\<close>

definition py_len :: "int \<Rightarrow> error + nat" where
  "py_len n = (if n < 0 then Inl ValueError else Inr (nat n))"

section \<open>Tensors\<close>

text \<open>
  A tensor carries its shape beside its nested rows, as a torch tensor does: the shape of
  an empty slice is still known.
\<close>

record 'a tensor3 =
  shape3 :: "nat \<times> nat \<times> nat"
  rows3 :: "'a list list list"

record 'a tensor2 =
  shape2 :: "nat \<times> nat"
  rows2 :: "'a list list"

definition wf_tensor3 :: "'a tensor3 \<Rightarrow> bool" where
  "wf_tensor3 t =
     (case shape3 t of (d0, d1, d2) \<Rightarrow>
        length (rows3 t) = d0 \<and>
        list_all (\<lambda>r. length r = d1 \<and> list_all (\<lambda>v. length v = d2) r) (rows3 t))"

text \<open>\<^verbatim>\<open>t[a:b]\<close>: a slice along the first axis.\<close>

definition slice0 :: "'a tensor3 \<Rightarrow> int \<Rightarrow> int \<Rightarrow> 'a tensor3" where
  "slice0 t a b =
     (case shape3 t of (d0, d1, d2) \<Rightarrow>
        (let rs = py_slice (rows3 t) a b
         in \<lparr>shape3 = (length rs, d1, d2), rows3 = rs\<rparr>))"

text \<open>\<^verbatim>\<open>t.permute(1, 0, 2)\<close>: the first two axes swapped.\<close>

definition permute102 :: "'a tensor3 \<Rightarrow> 'a tensor3" where
  "permute102 t =
     (case shape3 t of (d0, d1, d2) \<Rightarrow>
        \<lparr>shape3 = (d1, d0, d2),
         rows3 = map (\<lambda>n. map (\<lambda>r. r ! n) (rows3 t)) [0..<d1]\<rparr>)"

text \<open>
  \<^verbatim>\<open>t[:, :, c]\<close>: one feature channel; an index outside the last axis raises
  \<^verbatim>\<open>IndexError\<close>.
\<close>

definition select_channel :: "'a tensor3 \<Rightarrow> nat \<Rightarrow> error + 'a tensor2" where
  "select_channel t c =
     (case shape3 t of (d0, d1, d2) \<Rightarrow>
        if c < d2
        then Inr \<lparr>shape2 = (d0, d1), rows2 = map (map (\<lambda>v. v ! c)) (rows3 t)\<rparr>
        else Inl IndexError)"

text \<open>\<^verbatim>\<open>m.permute(1, 0)\<close>: the transpose.\<close>

definition permute10 :: "'a tensor2 \<Rightarrow> 'a tensor2" where
  "permute10 m =
     (case shape2 m of (d0, d1) \<Rightarrow>
        \<lparr>shape2 = (d1, d0), rows2 = map (\<lambda>n. map (\<lambda>r. r ! n) (rows2 m)) [0..<d1]\<rparr>)"

section \<open>The windowed dataset: class \<^verbatim>\<open>MyDataset\<close>\<close>

record 'a MyDataset =
  data :: "'a tensor3"
  his_length :: int
  pred_length :: int

text \<open>\<^verbatim>\<open>__init__\<close>: both bounds go through \<^verbatim>\<open>int\<close>, then the rows are sliced.\<close>

definition MyDataset_init ::
  "'a tensor3 \<Rightarrow> real \<Rightarrow> real \<Rightarrow> int \<Rightarrow> int \<Rightarrow> 'a MyDataset" where
  "MyDataset_init d split_start split_end his pred =
     (let s = py_int split_start; e = py_int split_end
      in \<lparr>data = slice0 d s e, his_length = his, pred_length = pred\<rparr>)"

text \<open>\<^verbatim>\<open>__getitem__\<close>: the history window and the prediction window of channel 0.\<close>

definition MyDataset_getitem ::
  "'a MyDataset \<Rightarrow> int \<Rightarrow> error + ('a tensor3 \<times> 'a tensor2)" where
  "MyDataset_getitem ds index =
     (let x = permute102 (slice0 (data ds) index (index + his_length ds))
      in case select_channel
             (slice0 (data ds) (index + his_length ds)
                (index + his_length ds + pred_length ds)) 0 of
           Inl e \<Rightarrow> Inl e
         | Inr c \<Rightarrow> Inr (x, permute10 c))"

text \<open>\<^verbatim>\<open>__len__\<close>: the value the method returns, which may be negative.\<close>

definition MyDataset_len :: "'a MyDataset \<Rightarrow> int" where
  "MyDataset_len ds =
     int (fst (shape3 (data ds))) - his_length ds - pred_length ds + 1"

text \<open>
  What the specification calls the example at an offset: \<open>h\<close> rows of a tensor from row
  \<open>a\<close> on, node-major; and the same rows restricted to feature channel 0.
\<close>

definition node_major_rows :: "'a tensor3 \<Rightarrow> int \<Rightarrow> int \<Rightarrow> 'a tensor3" where
  "node_major_rows d a h =
     (case shape3 d of (T, N, F) \<Rightarrow>
        \<lparr>shape3 = (N, nat h, F),
         rows3 = map (\<lambda>n. map (\<lambda>t. rows3 d ! (nat a + t) ! n) [0..<nat h]) [0..<N]\<rparr>)"

definition node_major_channel0 :: "'a tensor3 \<Rightarrow> int \<Rightarrow> int \<Rightarrow> 'a tensor2" where
  "node_major_channel0 d a h =
     (case shape3 d of (T, N, F) \<Rightarrow>
        \<lparr>shape2 = (N, nat h),
         rows2 = map (\<lambda>n. map (\<lambda>t. rows3 d ! (nat a + t) ! n ! 0) [0..<nat h]) [0..<N]\<rparr>)"

section \<open>The loader factory: \<^verbatim>\<open>generate_dataset\<close>\<close>

record args =
  batch_size :: int
  train_ratio :: real
  valid_ratio :: real
  args_his_length :: int
  args_pred_length :: int

text \<open>
  \<^verbatim>\<open>DataLoader(dataset, batch_size=batch_size, shuffle=True)\<close>. With
  \<^verbatim>\<open>shuffle=True\<close> the constructor builds a \<^verbatim>\<open>RandomSampler\<close> over the
  dataset, which takes \<^verbatim>\<open>len(dataset)\<close> and raises \<^verbatim>\<open>ValueError\<close> unless it
  is positive; the builtin \<^verbatim>\<open>len\<close> raises \<^verbatim>\<open>ValueError\<close> itself on a
  negative \<^verbatim>\<open>__len__\<close>. Then the \<^verbatim>\<open>BatchSampler\<close> raises
  \<^verbatim>\<open>ValueError\<close> unless the batch size is positive. The loader that is returned is
  kept as the record of its arguments; its iteration, the batching and the shuffling,
  is not modelled.
\<close>

record 'a DataLoader =
  dataset :: "'a MyDataset"
  loader_batch_size :: int
  shuffle :: bool

definition DataLoader_init :: "'a MyDataset \<Rightarrow> int \<Rightarrow> bool \<Rightarrow> error + 'a DataLoader" where
  "DataLoader_init ds bs sh =
     bind (if sh
           then bind (py_len (MyDataset_len ds))
                  (\<lambda>n. if n = 0 then Inl ValueError else Inr ())
           else Inr ()) (\<lambda>_.
     if bs \<le> 0 then Inl ValueError
     else Inr \<lparr>dataset = ds, loader_batch_size = bs, shuffle = sh\<rparr>)"

text \<open>
  The ratios are Python floats. The model computes over the reals and rounds the result
  of every float operation with \<open>fl\<close>: the identity for exact arithmetic, rounding to
  the nearest double for the machine's. The three datasets of lines 169, 172 and 175:
\<close>

definition train_dataset :: "(real \<Rightarrow> real) \<Rightarrow> 'a tensor3 \<Rightarrow> args \<Rightarrow> 'a MyDataset" where
  "train_dataset fl d a =
     MyDataset_init d 0 (fl (real (fst (shape3 d)) * train_ratio a))
       (args_his_length a) (args_pred_length a)"

definition valid_dataset :: "(real \<Rightarrow> real) \<Rightarrow> 'a tensor3 \<Rightarrow> args \<Rightarrow> 'a MyDataset" where
  "valid_dataset fl d a =
     MyDataset_init d (fl (real (fst (shape3 d)) * train_ratio a))
       (fl (real (fst (shape3 d)) * fl (train_ratio a + valid_ratio a)))
       (args_his_length a) (args_pred_length a)"

definition test_dataset :: "(real \<Rightarrow> real) \<Rightarrow> 'a tensor3 \<Rightarrow> args \<Rightarrow> 'a MyDataset" where
  "test_dataset fl d a =
     MyDataset_init d (fl (real (fst (shape3 d)) * fl (train_ratio a + valid_ratio a)))
       (real (fst (shape3 d))) (args_his_length a) (args_pred_length a)"

text \<open>Each dataset is wrapped in its loader before the next one is built; the first loader
  that raises ends the function.\<close>

definition generate_dataset ::
  "(real \<Rightarrow> real) \<Rightarrow> 'a tensor3 \<Rightarrow> args \<Rightarrow>
   error + ('a DataLoader \<times> 'a DataLoader \<times> 'a DataLoader)" where
  "generate_dataset fl d a =
     bind (DataLoader_init (train_dataset fl d a) (batch_size a) True) (\<lambda>train_dataloader.
     bind (DataLoader_init (valid_dataset fl d a) (batch_size a) True) (\<lambda>valid_dataloader.
     bind (DataLoader_init (test_dataset fl d a) (batch_size a) True) (\<lambda>test_dataloader.
     Inr (train_dataloader, valid_dataloader, test_dataloader))))"

section \<open>Loops and numpy matrices\<close>

text \<open>
  \<^verbatim>\<open>for x in xs: body\<close> over a state: the first raise of the body ends the loop and
  is the result.
\<close>

fun for_each :: "'a list \<Rightarrow> ('a \<Rightarrow> 's \<Rightarrow> error + 's) \<Rightarrow> 's \<Rightarrow> error + 's" where
  "for_each [] body s = Inr s"
| "for_each (x # xs) body s = bind (body x s) (for_each xs body)"

text \<open>
  A two-dimensional numpy array as the list of its rows; \<^verbatim>\<open>np.zeros((r, c))\<close> and
  \<^verbatim>\<open>np.zeros((r, c)) + v\<close>.
\<close>

type_synonym 'a matrix = "'a list list"

definition np_full :: "nat \<Rightarrow> nat \<Rightarrow> 'a \<Rightarrow> 'a matrix" where
  "np_full r c v = replicate r (replicate c v)"

definition np_zeros :: "nat \<Rightarrow> nat \<Rightarrow> real matrix" where
  "np_zeros r c = np_full r c 0"

text \<open>
  \<^verbatim>\<open>m[i][j]\<close> and \<^verbatim>\<open>m[i][j] = v\<close> (also written \<^verbatim>\<open>m[i, j]\<close>) with indices
  that are not negative: an index outside the array raises \<^verbatim>\<open>IndexError\<close>.
\<close>

definition np_get :: "'a matrix \<Rightarrow> nat \<Rightarrow> nat \<Rightarrow> error + 'a" where
  "np_get m i j = (if i < length m \<and> j < length (m ! i) then Inr (m ! i ! j) else Inl IndexError)"

definition np_set :: "'a matrix \<Rightarrow> nat \<Rightarrow> nat \<Rightarrow> 'a \<Rightarrow> error + 'a matrix" where
  "np_set m i j v =
     (if i < length m \<and> j < length (m ! i) then Inr (m[i := (m ! i)[j := v]])
      else Inl IndexError)"

text \<open>
  An index that came from \<^verbatim>\<open>int(...)\<close> may be negative: numpy counts it from the end,
  and raises \<^verbatim>\<open>IndexError\<close> outside \<open>[-n, n)\<close>.
\<close>

definition np_index :: "nat \<Rightarrow> int \<Rightarrow> error + nat" where
  "np_index n i =
     (if 0 \<le> i \<and> i < int n then Inr (nat i)
      else if - int n \<le> i \<and> i < 0 then Inr (nat (i + int n))
      else Inl IndexError)"

definition np_set_int :: "'a matrix \<Rightarrow> int \<Rightarrow> int \<Rightarrow> 'a \<Rightarrow> error + 'a matrix" where
  "np_set_int m i j v =
     bind (np_index (length m) i) (\<lambda>a.
     bind (np_index (length (m ! a)) j) (\<lambda>b.
     Inr (m[a := (m ! a)[b := v]])))"

text \<open>\<^verbatim>\<open>line[k]\<close> on a Python list, for a literal \<open>k \<ge> 0\<close>.\<close>

definition py_item :: "'a list \<Rightarrow> nat \<Rightarrow> error + 'a" where
  "py_item xs k = (if k < length xs then Inr (xs ! k) else Inl IndexError)"

text \<open>An \<open>n \<times> n\<close> matrix.\<close>

definition square :: "nat \<Rightarrow> 'a matrix \<Rightarrow> bool" where
  "square n m = (length m = n \<and> list_all (\<lambda>r. length r = n) m)"

text \<open>The index pairs a loop nest visits, in the order it visits them.\<close>

definition index_pairs :: "'a list \<Rightarrow> ('a \<Rightarrow> 'b list) \<Rightarrow> ('a \<times> 'b) list" where
  "index_pairs outer inner = concat (map (\<lambda>i. map (Pair i) (inner i)) outer)"

section \<open>\<^verbatim>\<open>read_data\<close>: the semantic distance matrix (lines 50-56)\<close>

text \<open>
  \<open>fastdtw\<close> stands for \<^verbatim>\<open>fastdtw(x, y, radius=6)[0]\<close> of the fastdtw library, and
  \<open>data_mean\<close> is the list of the nodes' daily profiles. The first loop nest fills the
  cells with \<open>i \<le> j\<close>, the second copies them below the diagonal.
\<close>

definition dtw_fill ::
  "('p \<Rightarrow> 'p \<Rightarrow> real) \<Rightarrow> 'p list \<Rightarrow> real matrix \<Rightarrow> error + real matrix" where
  "dtw_fill fastdtw data_mean =
     for_each [0..<length data_mean] (\<lambda>i.
       for_each [i..<length data_mean] (\<lambda>j dtw_distance.
         np_set dtw_distance i j (fastdtw (data_mean ! i) (data_mean ! j))))"

definition dtw_mirror :: "nat \<Rightarrow> real matrix \<Rightarrow> error + real matrix" where
  "dtw_mirror n =
     for_each [0..<n] (\<lambda>i.
       for_each [0..<i] (\<lambda>j dtw_distance.
         bind (np_get dtw_distance j i) (np_set dtw_distance i j)))"

definition dtw_distance_matrix ::
  "('p \<Rightarrow> 'p \<Rightarrow> real) \<Rightarrow> 'p list \<Rightarrow> error + real matrix" where
  "dtw_distance_matrix fastdtw data_mean =
     (let n = length data_mean;
          dtw_distance = np_zeros n n
      in bind (dtw_fill fastdtw data_mean dtw_distance) (dtw_mirror n))"

section \<open>\<^verbatim>\<open>read_data\<close>: the spatial distance matrix (lines 63-71)\<close>

text \<open>A distance: a finite float, or \<^verbatim>\<open>float('inf')\<close>.\<close>

datatype dist = Finite real | Infinity

text \<open>
  One row of the edge list. \<open>int_of\<close> and \<open>float_of\<close> stand for Python's \<^verbatim>\<open>int\<close>
  and \<^verbatim>\<open>float\<close> on a string, which raise on a malformed field. The right-hand
  side of each assignment is evaluated before the cell is indexed.
\<close>

definition spatial_row ::
  "(string \<Rightarrow> error + int) \<Rightarrow> (string \<Rightarrow> error + dist) \<Rightarrow> string list \<Rightarrow>
   dist matrix \<Rightarrow> error + dist matrix" where
  "spatial_row int_of float_of line dist_matrix =
     bind (bind (py_item line 0) int_of) (\<lambda>start.
     bind (bind (py_item line 1) int_of) (\<lambda>end.
     bind (bind (py_item line 2) float_of) (\<lambda>d.
     bind (np_set_int dist_matrix start end d) (\<lambda>dist_matrix.
     bind (bind (py_item line 2) float_of) (\<lambda>d.
     np_set_int dist_matrix end start d)))))"

text \<open>
  The matrix starts all-infinite; the first line of the file (the header) is skipped, and
  every other line is one row.
\<close>

definition spatial_distance_matrix ::
  "(string \<Rightarrow> error + int) \<Rightarrow> (string \<Rightarrow> error + dist) \<Rightarrow> nat \<Rightarrow> string list list \<Rightarrow>
   error + dist matrix" where
  "spatial_distance_matrix int_of float_of num_nodes file =
     for_each (drop 1 file) (spatial_row int_of float_of)
       (np_full num_nodes num_nodes Infinity)"

text \<open>
  The triple a line parses to, and the cells it addresses in an \<open>n \<times> n\<close> matrix: the
  vocabulary of the statements about the edge list.
\<close>

definition parsed_row ::
  "(string \<Rightarrow> error + int) \<Rightarrow> (string \<Rightarrow> error + dist) \<Rightarrow> string list \<Rightarrow>
   error + (int \<times> int \<times> dist)" where
  "parsed_row int_of float_of line =
     bind (bind (py_item line 0) int_of) (\<lambda>start.
     bind (bind (py_item line 1) int_of) (\<lambda>end.
     bind (bind (py_item line 2) float_of) (\<lambda>d.
     Inr (start, end, d))))"

definition row_cells ::
  "(string \<Rightarrow> error + int) \<Rightarrow> (string \<Rightarrow> error + dist) \<Rightarrow> nat \<Rightarrow> string list \<Rightarrow>
   (nat \<times> nat \<times> dist) option" where
  "row_cells int_of float_of n line =
     (case parsed_row int_of float_of line of
        Inl e \<Rightarrow> None
      | Inr (start, end, d) \<Rightarrow>
          (case (np_index n start, np_index n end) of
             (Inr a, Inr b) \<Rightarrow> Some (a, b, d)
           | _ \<Rightarrow> None))"

text \<open>
  The matrix after one row that addresses the cells \<open>(a, b)\<close> and \<open>(b, a)\<close>; whether
  a line addresses the cell \<open>(i, j)\<close>; and symmetry of an \<open>n \<times> n\<close> matrix.
\<close>

definition set_both :: "'a matrix \<Rightarrow> nat \<Rightarrow> nat \<Rightarrow> 'a \<Rightarrow> 'a matrix" where
  "set_both m a b d =
     (let m1 = m[a := (m ! a)[b := d]] in m1[b := (m1 ! b)[a := d]])"

definition touches ::
  "(string \<Rightarrow> error + int) \<Rightarrow> (string \<Rightarrow> error + dist) \<Rightarrow> nat \<Rightarrow> string list \<Rightarrow>
   nat \<Rightarrow> nat \<Rightarrow> bool" where
  "touches int_of float_of n line i j =
     (case row_cells int_of float_of n line of
        None \<Rightarrow> False
      | Some (a, b, d) \<Rightarrow> (i, j) = (a, b) \<or> (i, j) = (b, a))"

text \<open>
  The distance written by the last line of an edge list that addresses the cell
  \<open>(i, j)\<close>, if any line does.
\<close>

fun last_write ::
  "(string \<Rightarrow> error + int) \<Rightarrow> (string \<Rightarrow> error + dist) \<Rightarrow> nat \<Rightarrow> string list list \<Rightarrow>
   nat \<Rightarrow> nat \<Rightarrow> dist option" where
  "last_write int_of float_of n [] i j = None"
| "last_write int_of float_of n (line # lines) i j =
     (case last_write int_of float_of n lines i j of
        Some d \<Rightarrow> Some d
      | None \<Rightarrow>
          (case row_cells int_of float_of n line of
             None \<Rightarrow> None
           | Some (a, b, d) \<Rightarrow> if (i, j) = (a, b) \<or> (i, j) = (b, a) then Some d else None))"

definition symmetric :: "nat \<Rightarrow> 'a matrix \<Rightarrow> bool" where
  "symmetric n m = (\<forall>i<n. \<forall>j<n. m ! i ! j = m ! j ! i)"


section \<open>\<^verbatim>\<open>read_data\<close>: the node subset (lines 77-80)\<close>

text \<open>
  \<^verbatim>\<open>np.random.choice(a, k, replace=False)\<close> returns
  \<^verbatim>\<open>permutation(a)[:k]\<close>, and raises \<^verbatim>\<open>ValueError\<close> when the sample is larger
  than the population. The permutation of \<^verbatim>\<open>arange(a)\<close> that the generator draws is
  the parameter \<open>permutation\<close>.
\<close>

definition np_arange :: "nat \<Rightarrow> nat list" where
  "np_arange n = [0..<n]"

definition np_random_choice :: "nat list \<Rightarrow> nat \<Rightarrow> nat \<Rightarrow> error + nat list" where
  "np_random_choice permutation a k =
     (if a < k then Inl ValueError else Inr (take k permutation))"

definition selected_nodes :: "nat list \<Rightarrow> nat \<Rightarrow> error + nat list" where
  "selected_nodes permutation num_nodes =
     (if num_nodes > 100 then np_random_choice permutation num_nodes 100
      else Inr (np_arange num_nodes))"

section \<open>\<^verbatim>\<open>generate_graph\<close>\<close>

text \<open>
  A \<^verbatim>\<open>networkx.Graph\<close>: its nodes, and its adjacency, which holds the weight of an
  edge under both orders of its end points. \<^verbatim>\<open>add_edge\<close> adds both end points
  and sets the weight, replacing the weight of an edge that is there already.
\<close>

record graph =
  nodes :: "nat set"
  adj :: "nat \<times> nat \<rightharpoonup> dist"

definition empty_graph :: graph where
  "empty_graph = \<lparr>nodes = {}, adj = Map.empty\<rparr>"

definition add_edge :: "graph \<Rightarrow> nat \<Rightarrow> nat \<Rightarrow> dist \<Rightarrow> graph" where
  "add_edge G u v w =
     \<lparr>nodes = insert v (insert u (nodes G)), adj = (adj G)((u, v) \<mapsto> w, (v, u) \<mapsto> w)\<rparr>"

definition generate_graph :: "nat \<Rightarrow> dist matrix \<Rightarrow> nat list \<Rightarrow> error + graph" where
  "generate_graph num_nodes dist_matrix selected =
     for_each selected (\<lambda>i.
       for_each selected (\<lambda>j G.
         bind (np_get dist_matrix i j) (\<lambda>d.
           if d \<noteq> Infinity then Inr (add_edge G i j d) else Inr G)))
       empty_graph"

text \<open>
  An edge between two nodes; the edges as unordered pairs, a self-loop being a singleton
  (what \<^verbatim>\<open>G.number_of_edges()\<close> counts); and the pairs of nodes joined by a path.
\<close>

definition has_edge :: "graph \<Rightarrow> nat \<Rightarrow> nat \<Rightarrow> bool" where
  "has_edge G u v = (adj G (u, v) \<noteq> None)"

definition edges :: "graph \<Rightarrow> nat set set" where
  "edges G = (\<lambda>(u, v). {u, v}) ` dom (adj G)"

definition path_between :: "graph \<Rightarrow> (nat \<times> nat) set" where
  "path_between G = {(u, v). has_edge G u v}\<^sup>*"

text \<open>The effect of the loop body at one pair of nodes whose cell is inside the matrix.\<close>

definition graph_step :: "dist matrix \<Rightarrow> nat \<times> nat \<Rightarrow> graph \<Rightarrow> graph" where
  "graph_step D p G =
     (if D ! fst p ! snd p \<noteq> Infinity then add_edge G (fst p) (snd p) (D ! fst p ! snd p)
      else G)"

section \<open>\<^verbatim>\<open>read_data\<close>: the two similarity matrices (lines 87-94)\<close>

text \<open>
  \<^verbatim>\<open>a - b\<close> on one-dimensional arrays, with numpy's broadcasting of an array of
  length 1, and \<^verbatim>\<open>np.linalg.norm\<close> of a one-dimensional array. The floats are
  modelled as reals.
\<close>

definition np_sub :: "real list \<Rightarrow> real list \<Rightarrow> error + real list" where
  "np_sub a b =
     (if length a = length b then Inr (map2 (-) a b)
      else if length a = 1 then Inr (map (\<lambda>y. a ! 0 - y) b)
      else if length b = 1 then Inr (map (\<lambda>x. x - b ! 0) a)
      else Inl ValueError)"

definition linalg_norm :: "real list \<Rightarrow> real" where
  "linalg_norm v = sqrt (sum_list (map (\<lambda>x. x * x) v))"

text \<open>\<^verbatim>\<open>d[k]\<close> on a dict raises \<^verbatim>\<open>KeyError\<close> for a missing key.\<close>

definition dict_get :: "('k \<rightharpoonup> 'v) \<Rightarrow> 'k \<Rightarrow> error + 'v" where
  "dict_get d k = (case d k of None \<Rightarrow> Inl KeyError | Some v \<Rightarrow> Inr v)"

text \<open>\<^verbatim>\<open>np.linalg.norm(node_embeddings[i] - node_embeddings[j])\<close>.\<close>

definition embedding_distance :: "(nat \<rightharpoonup> real list) \<Rightarrow> nat \<Rightarrow> nat \<Rightarrow> error + real" where
  "embedding_distance node_embeddings i j =
     bind (dict_get node_embeddings i) (\<lambda>a.
     bind (dict_get node_embeddings j) (\<lambda>b.
     bind (np_sub a b) (\<lambda>d. Inr (linalg_norm d))))"

text \<open>The body of the loop nest, and the nest over the two zero matrices.\<close>

fun similarity_body ::
  "(nat \<rightharpoonup> real list) \<Rightarrow> nat \<Rightarrow> nat \<Rightarrow> real matrix \<times> real matrix \<Rightarrow>
   error + (real matrix \<times> real matrix)" where
  "similarity_body node_embeddings i j (dtw_matrix, sp_matrix) =
     (if i \<noteq> j \<and> node_embeddings i \<noteq> None \<and> node_embeddings j \<noteq> None
      then
        bind (embedding_distance node_embeddings i j) (\<lambda>v.
        bind (np_set dtw_matrix i j v) (\<lambda>dtw_matrix.
        bind (embedding_distance node_embeddings i j) (\<lambda>v.
        bind (np_set sp_matrix i j v) (\<lambda>sp_matrix.
        Inr (dtw_matrix, sp_matrix)))))
      else Inr (dtw_matrix, sp_matrix))"

definition similarity_matrices ::
  "nat \<Rightarrow> nat list \<Rightarrow> (nat \<rightharpoonup> real list) \<Rightarrow> error + (real matrix \<times> real matrix)" where
  "similarity_matrices num_nodes selected node_embeddings =
     for_each selected (\<lambda>i.
       for_each selected (\<lambda>j. similarity_body node_embeddings i j))
       (np_zeros num_nodes num_nodes, np_zeros num_nodes num_nodes)"

text \<open>The loop body on one matrix, and the value it writes when the embeddings have equal
  lengths: the vocabulary of the statements about the two matrices.\<close>

definition similarity_step ::
  "(nat \<rightharpoonup> real list) \<Rightarrow> nat \<times> nat \<Rightarrow> real matrix \<Rightarrow> error + real matrix" where
  "similarity_step node_embeddings p m =
     (if fst p \<noteq> snd p \<and> node_embeddings (fst p) \<noteq> None \<and> node_embeddings (snd p) \<noteq> None
      then bind (embedding_distance node_embeddings (fst p) (snd p)) (np_set m (fst p) (snd p))
      else Inr m)"

definition euclidean_distance :: "real list \<Rightarrow> real list \<Rightarrow> real" where
  "euclidean_distance a b = sqrt (\<Sum>k<length a. (a ! k - b ! k)\<^sup>2)"


section \<open>\<^verbatim>\<open>get_normalized_adj\<close>\<close>

text \<open>
  A numpy array of any number of dimensions: its shape and its elements in row-major
  order. A float is the real number it denotes.
\<close>

record ndarray =
  shape :: "nat list"
  flat :: "real list"

text \<open>
  The arithmetic of the floats is a parameter of the function: \<open>rnd\<close> rounds the exact
  result of one \<^verbatim>\<open>float64\<close> operation, and the value of a literal;
  \<open>row_sum\<close> is \<^verbatim>\<open>np.sum\<close> on one row, whose order of additions is numpy's and
  not in the source; \<open>to_float32\<close> is the conversion of
  \<^verbatim>\<open>astype(np.float32)\<close>. Infinities and NaN are not modelled.
\<close>

record float_arith =
  rnd :: "real \<Rightarrow> real"
  row_sum :: "real list \<Rightarrow> real"
  to_float32 :: "real \<Rightarrow> real"

text \<open>The arithmetic of the reals, where nothing is rounded.\<close>

definition exact_arith :: float_arith where
  "exact_arith = \<lparr>rnd = (\<lambda>x. x), row_sum = sum_list, to_float32 = (\<lambda>x. x)\<rparr>"

text \<open>
  Binary floating point with a significand of \<open>p\<close> bits, rounding to nearest with ties to
  even, the exponent unbounded (no overflow and no subnormal numbers): \<open>p = 53\<close> is
  \<^verbatim>\<open>float64\<close> and \<open>p = 24\<close> is \<^verbatim>\<open>float32\<close>.
\<close>

definition round_half_even :: "real \<Rightarrow> int" where
  "round_half_even y =
     (let n = \<lfloor>y\<rfloor> in
      if y - of_int n < 1 / 2 then n
      else if 1 / 2 < y - of_int n then n + 1
      else if even n then n else n + 1)"

definition round_to :: "nat \<Rightarrow> real \<Rightarrow> real" where
  "round_to p x =
     (if x = 0 then 0
      else (let e = \<lfloor>log 2 \<bar>x\<bar>\<rfloor> - int p + 1
            in of_int (round_half_even (x / 2 powi e)) * 2 powi e))"

text \<open>
  IEEE 754 arithmetic, every operation correctly rounded; a row is summed from left to
  right.
\<close>

definition ieee_arith :: float_arith where
  "ieee_arith =
     \<lparr>rnd = round_to 53, row_sum = foldl (\<lambda>s x. round_to 53 (s + x)) 0,
      to_float32 = round_to 24\<rparr>"

definition ndim :: "ndarray \<Rightarrow> nat" where
  "ndim A = length (shape A)"

text \<open>The element \<^verbatim>\<open>A[i, j]\<close> of a two-dimensional array, and the array with given
  elements.\<close>

definition at2 :: "ndarray \<Rightarrow> nat \<Rightarrow> nat \<Rightarrow> real" where
  "at2 A i j = flat A ! (i * (shape A ! 1) + j)"

definition tabulate2 :: "nat \<Rightarrow> nat \<Rightarrow> (nat \<Rightarrow> nat \<Rightarrow> real) \<Rightarrow> ndarray" where
  "tabulate2 r c f = \<lparr>shape = [r, c], flat = concat (map (\<lambda>i. map (f i) [0..<c]) [0..<r])\<rparr>"

text \<open>\<^verbatim>\<open>np.array(np.sum(A, axis=1)).reshape((-1,))\<close>: the row sums, one-dimensional.\<close>

definition np_sum_axis1 :: "float_arith \<Rightarrow> ndarray \<Rightarrow> real list" where
  "np_sum_axis1 fa A =
     map (\<lambda>i. row_sum fa (map (at2 A i) [0..<shape A ! 1])) [0..<shape A ! 0]"

text \<open>\<^verbatim>\<open>D[D <= 10e-5] = 10e-5\<close>; the literal \<^verbatim>\<open>10e-5\<close> is the float of
  \<open>1/10000\<close>.\<close>

definition floor_degrees :: "float_arith \<Rightarrow> real list \<Rightarrow> real list" where
  "floor_degrees fa D =
     map (\<lambda>d. if d \<le> rnd fa (1 / 10000) then rnd fa (1 / 10000) else d) D"

text \<open>\<^verbatim>\<open>np.reciprocal(np.sqrt(D))\<close>, two operations on each element.\<close>

definition reciprocal_sqrt :: "float_arith \<Rightarrow> real \<Rightarrow> real" where
  "reciprocal_sqrt fa d = rnd fa (1 / rnd fa (sqrt d))"

text \<open>\<^verbatim>\<open>v.reshape((-1, 1))\<close> and \<^verbatim>\<open>v.reshape((1, -1))\<close>.\<close>

definition reshape_column :: "real list \<Rightarrow> ndarray" where
  "reshape_column v = \<lparr>shape = [length v, 1], flat = v\<rparr>"

definition reshape_row :: "real list \<Rightarrow> ndarray" where
  "reshape_row v = \<lparr>shape = [1, length v], flat = v\<rparr>"

text \<open>
  An elementwise operation on two two-dimensional arrays with numpy's broadcasting: along
  each axis the lengths are equal or one of them is 1, else \<^verbatim>\<open>ValueError\<close>; an axis
  of length 1 is repeated.
\<close>

definition broadcast_dim :: "nat \<Rightarrow> nat \<Rightarrow> error + nat" where
  "broadcast_dim a b =
     (if a = b then Inr a else if a = 1 then Inr b else if b = 1 then Inr a
      else Inl ValueError)"

definition broadcast2 :: "(real \<Rightarrow> real \<Rightarrow> real) \<Rightarrow> ndarray \<Rightarrow> ndarray \<Rightarrow> error + ndarray" where
  "broadcast2 f A B =
     bind (broadcast_dim (shape A ! 0) (shape B ! 0)) (\<lambda>r.
     bind (broadcast_dim (shape A ! 1) (shape B ! 1)) (\<lambda>c.
     Inr (tabulate2 r c (\<lambda>i j.
       f (at2 A (if shape A ! 0 = 1 then 0 else i) (if shape A ! 1 = 1 then 0 else j))
         (at2 B (if shape B ! 0 = 1 then 0 else i) (if shape B ! 1 = 1 then 0 else j))))))"

definition np_multiply :: "float_arith \<Rightarrow> ndarray \<Rightarrow> ndarray \<Rightarrow> error + ndarray" where
  "np_multiply fa = broadcast2 (\<lambda>x y. rnd fa (x * y))"

definition np_add :: "float_arith \<Rightarrow> ndarray \<Rightarrow> ndarray \<Rightarrow> error + ndarray" where
  "np_add fa = broadcast2 (\<lambda>x y. rnd fa (x + y))"

definition np_eye :: "nat \<Rightarrow> ndarray" where
  "np_eye n = tabulate2 n n (\<lambda>i j. if i = j then 1 else 0)"

definition scalar_mul :: "float_arith \<Rightarrow> real \<Rightarrow> ndarray \<Rightarrow> ndarray" where
  "scalar_mul fa k A = \<lparr>shape = shape A, flat = map (\<lambda>x. rnd fa (k * x)) (flat A)\<rparr>"

definition astype_float32 :: "float_arith \<Rightarrow> ndarray \<Rightarrow> ndarray" where
  "astype_float32 fa A = \<lparr>shape = shape A, flat = map (to_float32 fa) (flat A)\<rparr>"

definition get_normalized_adj :: "float_arith \<Rightarrow> ndarray \<Rightarrow> error + ndarray" where
  "get_normalized_adj fa A =
     (if ndim A \<noteq> 2 then Inl ValueError
      else
        (let alpha = rnd fa (8 / 10);
             D = np_sum_axis1 fa A;
             D = floor_degrees fa D;
             diag = map (reciprocal_sqrt fa) D
         in bind (np_multiply fa (reshape_column diag) A) (\<lambda>X.
            bind (np_multiply fa X (reshape_row diag)) (\<lambda>A_wave.
            bind (np_add fa (np_eye (shape A ! 0)) A_wave) (\<lambda>Y.
            Inr (astype_float32 fa (scalar_mul fa (rnd fa (alpha / 2)) Y)))))))"

text \<open>
  The formula of the specification for an \<open>n \<times> n\<close> matrix: the degree of a row is its
  sum, floored at \<open>1/10000\<close>, and the result is
  \<open>(0.8 / 2) \<cdot> (I + D\<^sup>-\<^sup>1\<^sup>/\<^sup>2 \<cdot> A \<cdot> D\<^sup>-\<^sup>1\<^sup>/\<^sup>2)\<close>.
\<close>

definition degree :: "ndarray \<Rightarrow> nat \<Rightarrow> real" where
  "degree A i =
     (let d = (\<Sum>j<shape A ! 1. at2 A i j) in if d \<le> 1 / 10000 then 1 / 10000 else d)"

definition normalized_adj_formula :: "ndarray \<Rightarrow> nat \<Rightarrow> nat \<Rightarrow> real" where
  "normalized_adj_formula A i j =
     (8 / 10) / 2 *
       ((if i = j then 1 else 0) + (1 / sqrt (degree A i)) * at2 A i j * (1 / sqrt (degree A j)))"

text \<open>
  The same formula as the floats compute it, every operation rounded: the floored degree
  of a row, the entry of \<^verbatim>\<open>A_wave\<close>, where the row is scaled before the column, and
  the entry of the result.
\<close>

definition float_degree :: "float_arith \<Rightarrow> ndarray \<Rightarrow> nat \<Rightarrow> real" where
  "float_degree fa A i =
     (let d = row_sum fa (map (at2 A i) [0..<shape A ! 1])
      in if d \<le> rnd fa (1 / 10000) then rnd fa (1 / 10000) else d)"

definition A_wave_entry :: "float_arith \<Rightarrow> ndarray \<Rightarrow> nat \<Rightarrow> nat \<Rightarrow> real" where
  "A_wave_entry fa A i j =
     rnd fa (rnd fa (reciprocal_sqrt fa (float_degree fa A i) * at2 A i j) *
       reciprocal_sqrt fa (float_degree fa A j))"

definition float_adj_formula :: "float_arith \<Rightarrow> ndarray \<Rightarrow> nat \<Rightarrow> nat \<Rightarrow> real" where
  "float_adj_formula fa A i j =
     to_float32 fa (rnd fa (rnd fa (rnd fa (8 / 10) / 2) *
       rnd fa ((if i = j then 1 else 0) + A_wave_entry fa A i j)))"


section \<open>Concrete inputs\<close>

text \<open>A 100-row tensor over two nodes and two feature channels, and a loader configuration
  with the ratios 0.6 and 0.2.\<close>

definition d100 :: "int tensor3" where
  "d100 = \<lparr>shape3 = (100, 2, 2),
           rows3 = map (\<lambda>t. map (\<lambda>n. [10 * int t + int n, 7]) [0..<2]) [0..<100]\<rparr>"

definition args100 :: args where
  "args100 = \<lparr>batch_size = 16, train_ratio = 6 / 10, valid_ratio = 2 / 10,
              args_his_length = 12, args_pred_length = 3\<rparr>"

text \<open>The same configuration with an empty training split, and one whose ratios are
  multiples of \<open>1/8\<close>.\<close>

definition args_train0 :: args where
  "args_train0 = \<lparr>batch_size = 16, train_ratio = 0, valid_ratio = 2 / 10,
              args_his_length = 12, args_pred_length = 3\<rparr>"

definition args_eighths :: args where
  "args_eighths = \<lparr>batch_size = 16, train_ratio = 5 / 8, valid_ratio = 1 / 4,
              args_his_length = 12, args_pred_length = 3\<rparr>"

text \<open>A rounding that is not the identity: to the nearest multiple of \<open>1/1024\<close>, halves
  upwards.\<close>

definition round1024 :: "real \<Rightarrow> real" where
  "round1024 x = of_int \<lfloor>x * 1024 + 1 / 2\<rfloor> / 1024"

text \<open>A two-row tensor over one node and one feature channel.\<close>

definition d2 :: "int tensor3" where
  "d2 = \<lparr>shape3 = (2, 1, 1), rows3 = [[[5]], [[6]]]\<rparr>"

text \<open>
  An edge list of three nodes with its header line, whose last row addresses the cells of
  its first row again, and parsers for the fields that occur in it.
\<close>

definition demo_int :: "string \<Rightarrow> error + int" where
  "demo_int s =
     (if s = ''0'' then Inr 0 else if s = ''1'' then Inr 1 else if s = ''2'' then Inr 2
      else Inl ValueError)"

definition demo_float :: "string \<Rightarrow> error + dist" where
  "demo_float s =
     (if s = ''7.5'' then Inr (Finite (15 / 2)) else if s = ''3'' then Inr (Finite 3)
      else if s = ''2'' then Inr (Finite 2) else Inl ValueError)"

definition demo_file :: "string list list" where
  "demo_file =
     [[''from'', ''to'', ''cost''],
      [''0'', ''1'', ''7.5''], [''2'', ''1'', ''3''], [''1'', ''0'', ''2'']]"

text \<open>An embedding table of three sampled nodes in which node 2 has no embedding.\<close>

definition E3 :: "nat \<rightharpoonup> real list" where
  "E3 = [0 \<mapsto> [0, 0], 1 \<mapsto> [3, 4]]"

text \<open>
  Four nodes with finite distances between 0 and 1 and between 2 and 3 only, and two nodes
  at distance 0 from themselves.
\<close>

definition D4 :: "dist matrix" where
  "D4 = [[Infinity, Finite 5, Infinity, Infinity],
         [Finite 5, Infinity, Infinity, Infinity],
         [Infinity, Infinity, Infinity, Finite 7],
         [Infinity, Infinity, Finite 7, Infinity]]"

text \<open>The same four nodes, each at distance 0 from itself.\<close>

definition D4z :: "dist matrix" where
  "D4z = [[Finite 0, Finite 5, Infinity, Infinity],
          [Finite 5, Finite 0, Infinity, Infinity],
          [Infinity, Infinity, Finite 0, Finite 7],
          [Infinity, Infinity, Finite 7, Finite 0]]"

definition D2 :: "dist matrix" where
  "D2 = [[Finite 0, Infinity], [Infinity, Finite 0]]"

text \<open>
  A one-dimensional array; a \<open>2 \<times> 2\<close> matrix with a zero row, whose degree is floored;
  and a symmetric \<open>2 \<times> 2\<close> matrix.
\<close>

definition vector3 :: ndarray where
  "vector3 = \<lparr>shape = [3], flat = [1, 2, 3]\<rparr>"

definition zero_row :: ndarray where
  "zero_row = \<lparr>shape = [2, 2], flat = [0, 0, 0, 4]\<rparr>"

definition sym22 :: ndarray where
  "sym22 = \<lparr>shape = [2, 2], flat = [1, 3, 3, 1]\<rparr>"

text \<open>
  A symmetric matrix of floats; the entry \<open>2685808560790519 / 2\<^sup>4\<^sup>6\<close> is the
  \<^verbatim>\<open>float64\<close> that Python writes \<^verbatim>\<open>38.167635250239854\<close>.
\<close>

definition sym_float :: ndarray where
  "sym_float = \<lparr>shape = [2, 2], flat = [0, 5, 5, 2685808560790519 / 70368744177664]\<rparr>"

text \<open>A \<open>2 \<times> 3\<close> matrix.\<close>

definition wide23 :: ndarray where
  "wide23 = \<lparr>shape = [2, 3], flat = [1, 2, 3, 4, 5, 6]\<rparr>"


section \<open>Slices and windows\<close>

lemma bind_Inr [simp]: "bind (Inr x) f = f x"
  by (simp add: bind_def)

lemma bind_Inl [simp]: "bind (Inl e) f = Inl e"
  by (simp add: bind_def)

lemma py_slice_nonneg:
  "0 \<le> a \<Longrightarrow> a \<le> b \<Longrightarrow> b \<le> int (length xs) \<Longrightarrow>
   py_slice xs a b = take (nat (b - a)) (drop (nat a) xs)"
  by (simp add: py_slice_def slice_bound_def Let_def min_def nat_diff_distrib)

lemma set_py_slice: "set (py_slice xs a b) \<subseteq> set xs"
  unfolding py_slice_def Let_def
  by (meson set_take_subset set_drop_subset subset_trans)

lemma length_py_slice_window:
  "0 \<le> a \<Longrightarrow> 0 \<le> h \<Longrightarrow> length (py_slice xs a (a + h)) = min (nat h) (length xs - nat a)"
  by (auto simp: py_slice_def slice_bound_def Let_def min_def nat_add_distrib)

lemma py_int_of_int: "py_int (of_int i) = i"
  by (simp add: py_int_def)

lemma py_int_of_nat: "py_int (real n) = int n"
  by (simp add: py_int_def)

lemma py_int_mono: "x \<le> y \<Longrightarrow> py_int x \<le> py_int y"
proof -
  assume xy: "x \<le> y"
  show ?thesis
  proof (cases "0 \<le> x")
    case True
    then show ?thesis using xy by (simp add: py_int_def floor_mono)
  next
    case False
    then have cx: "\<lceil>x\<rceil> \<le> 0" by (simp add: ceiling_le_zero)
    show ?thesis
    proof (cases "0 \<le> y")
      case True
      then have "0 \<le> \<lfloor>y\<rfloor>" by simp
      then have "\<lceil>x\<rceil> \<le> \<lfloor>y\<rfloor>" using cx by linarith
      then show ?thesis using False True by (simp add: py_int_def)
    next
      case y: False
      then show ?thesis using xy False by (simp add: py_int_def ceiling_mono)
    qed
  qed
qed

lemma three_parts:
  assumes "a \<le> b"
  shows "take a xs @ take (b - a) (drop a xs) @ drop b xs = xs"
proof -
  have "drop b xs = drop (b - a) (drop a xs)"
    using assms by simp
  then have "take (b - a) (drop a xs) @ drop b xs = drop a xs"
    by (simp only: append_take_drop_id)
  then show ?thesis by (simp only: append_take_drop_id)
qed

lemma wf_slice0: "wf_tensor3 d \<Longrightarrow> wf_tensor3 (slice0 d a b)"
  using set_py_slice [of "rows3 d" a b]
  by (auto simp: wf_tensor3_def slice0_def Let_def list_all_iff split: prod.splits)

lemma init_fields:
  "his_length (MyDataset_init d a b H P) = H" "pred_length (MyDataset_init d a b H P) = P"
  "data (MyDataset_init d a b H P) = slice0 d (py_int a) (py_int b)"
  by (simp_all add: MyDataset_init_def Let_def)

lemma slice0_rows:
  assumes "wf_tensor3 d" "shape3 d = (T, N, F)" "0 \<le> s" "s \<le> e" "e \<le> int T"
  shows "slice0 d s e =
           \<lparr>shape3 = (nat (e - s), N, F), rows3 = take (nat (e - s)) (drop (nat s) (rows3 d))\<rparr>"
  using assms
  by (simp add: slice0_def wf_tensor3_def py_slice_nonneg Let_def)

lemma window_rows:
  assumes "0 \<le> a" "0 \<le> h" "a + h \<le> int (length xs)"
  shows "py_slice xs a (a + h) = map (\<lambda>t. xs ! (nat a + t)) [0..<nat h]"
proof -
  have "py_slice xs a (a + h) = take (nat h) (drop (nat a) xs)"
    using assms by (subst py_slice_nonneg) auto
  also have "\<dots> = map (\<lambda>t. xs ! (nat a + t)) [0..<nat h]"
    using assms by (intro nth_equalityI) auto
  finally show ?thesis .
qed

lemma getitem_window:
  assumes wf: "wf_tensor3 (data ds)" and sh: "shape3 (data ds) = (L, N, F)"
    and hp: "0 \<le> his_length ds" "0 \<le> pred_length ds" and f: "0 < F"
    and k: "0 \<le> k" "k + his_length ds + pred_length ds \<le> int L"
  shows "MyDataset_getitem ds k =
           Inr (node_major_rows (data ds) k (his_length ds),
                node_major_channel0 (data ds) (k + his_length ds) (pred_length ds))"
proof -
  let ?xs = "rows3 (data ds)" and ?H = "his_length ds" and ?P = "pred_length ds"
  have len: "length ?xs = L" and rows: "\<And>r. r \<in> set ?xs \<Longrightarrow> length r = N"
    using wf sh by (auto simp: wf_tensor3_def list_all_iff)
  have hist: "py_slice ?xs k (k + ?H) = map (\<lambda>t. ?xs ! (nat k + t)) [0..<nat ?H]"
    using len hp k by (intro window_rows) auto
  have pred: "py_slice ?xs (k + ?H) (k + ?H + ?P) =
                map (\<lambda>t. ?xs ! (nat (k + ?H) + t)) [0..<nat ?P]"
    using len hp k by (intro window_rows) auto
  have inrange: "\<And>t. t < nat ?P \<Longrightarrow> nat (k + ?H) + t < L"
    using hp k by linarith
  have cell: "\<And>t n. t < nat ?P \<Longrightarrow> n < N \<Longrightarrow>
                map (\<lambda>v. v ! 0) (?xs ! (nat (k + ?H) + t)) ! n = ?xs ! (nat (k + ?H) + t) ! n ! 0"
    using inrange len rows by (simp add: nth_map)
  show ?thesis
    using sh f cell
    by (simp add: MyDataset_getitem_def slice0_def hist pred
        permute102_def permute10_def select_channel_def node_major_rows_def
        node_major_channel0_def Let_def comp_def)
qed

text \<open>
  Claim C2. A dataset built over the rows \<open>[s, e)\<close> of a well-formed tensor, with
  history length \<open>H\<close> and prediction length \<open>P\<close>, holds exactly those rows; its
  \<^verbatim>\<open>__len__\<close> is \<open>(e - s) - H - P + 1\<close>; and the example at every offset
  \<open>k\<close> below that length is the pair of the rows \<open>[k, k + H)\<close> of the split, node-major,
  and the rows \<open>[k + H, k + H + P)\<close> of the split restricted to feature channel 0,
  node-major. The tensor has at least one feature channel. An instance is the 100-row
  split with \<open>H = 12\<close> and \<open>P = 3\<close>: 86 examples, example 0 made of the rows
  \<open>[0, 12)\<close> and of channel 0 of the rows \<open>[12, 15)\<close>.
\<close>

theorem MyDataset_windowed_examples:
  assumes "wf_tensor3 d" and "shape3 d = (T, N, F)" and "0 < F"
    and "0 \<le> s" and "s \<le> e" and "e \<le> int T" and "0 \<le> H" and "0 \<le> P"
  shows "data (MyDataset_init d (of_int s) (of_int e) H P) =
           \<lparr>shape3 = (nat (e - s), N, F), rows3 = take (nat (e - s)) (drop (nat s) (rows3 d))\<rparr> \<and>
         MyDataset_len (MyDataset_init d (of_int s) (of_int e) H P) = (e - s) - H - P + 1 \<and>
         (\<forall>k. 0 \<le> k \<and> k < (e - s) - H - P + 1 \<longrightarrow>
            MyDataset_getitem (MyDataset_init d (of_int s) (of_int e) H P) k =
              Inr (node_major_rows (data (MyDataset_init d (of_int s) (of_int e) H P)) k H,
                   node_major_channel0 (data (MyDataset_init d (of_int s) (of_int e) H P))
                     (k + H) P))"
proof -
  let ?ds = "MyDataset_init d (of_int s) (of_int e) H P"
  have dat: "data ?ds =
      \<lparr>shape3 = (nat (e - s), N, F), rows3 = take (nat (e - s)) (drop (nat s) (rows3 d))\<rparr>"
    using assms by (simp add: init_fields py_int_of_int slice0_rows)
  have wf: "wf_tensor3 (data ?ds)"
    using assms(1) by (simp add: init_fields wf_slice0)
  have len: "MyDataset_len ?ds = (e - s) - H - P + 1"
    using assms unfolding MyDataset_len_def dat by (simp add: init_fields)
  have ex: "MyDataset_getitem ?ds k =
              Inr (node_major_rows (data ?ds) k H, node_major_channel0 (data ?ds) (k + H) P)"
    if "0 \<le> k" "k < (e - s) - H - P + 1" for k
    using getitem_window [of ?ds "nat (e - s)" N F k] wf dat assms that
    by (simp add: init_fields(1,2))
  show ?thesis using dat len ex by blast
qed

text \<open>The 100-row split of Claim C2.\<close>

theorem MyDataset_windowed_examples_witness:
  "wf_tensor3 d100 \<and> shape3 d100 = (100, 2, 2) \<and>
   MyDataset_len (MyDataset_init d100 0 100 12 3) = 86 \<and>
   MyDataset_getitem (MyDataset_init d100 0 100 12 3) 0 =
     Inr (\<lparr>shape3 = (2, 12, 2),
           rows3 = map (\<lambda>n. map (\<lambda>t. [10 * int t + int n, 7]) [0..<12]) [0..<2]\<rparr>,
          \<lparr>shape2 = (2, 3), rows2 = [[120, 130, 140], [121, 131, 141]]\<rparr>)"
proof -
  have wf: "wf_tensor3 d100" and sh: "shape3 d100 = (100, 2, 2)"
    by (simp_all add: d100_def wf_tensor3_def list_all_iff)
  note inst = MyDataset_windowed_examples [OF wf sh, of 0 100 12 3]
  have dat: "data (MyDataset_init d100 0 100 12 3) = d100"
    using inst by (simp add: d100_def)
  have len: "MyDataset_len (MyDataset_init d100 0 100 12 3) = 86"
    using inst by simp
  have "MyDataset_getitem (MyDataset_init d100 0 100 12 3) 0 =
          Inr (node_major_rows d100 0 12, node_major_channel0 d100 12 3)"
    using inst dat by simp
  moreover have "node_major_rows d100 0 12 = \<lparr>shape3 = (2, 12, 2),
           rows3 = map (\<lambda>n. map (\<lambda>t. [10 * int t + int n, 7]) [0..<12]) [0..<2]\<rparr>"
    by (simp add: node_major_rows_def d100_def)
  moreover have "node_major_channel0 d100 12 3 =
      \<lparr>shape2 = (2, 3), rows2 = [[120, 130, 140], [121, 131, 141]]\<rparr>"
    by code_simp
  ultimately show ?thesis using wf sh len by simp
qed

lemma getitem_total:
  assumes "shape3 (data ds) = (L, N, F)" "0 < F"
  shows "MyDataset_getitem ds k =
    Inr (permute102 (slice0 (data ds) k (k + his_length ds)),
         permute10 \<lparr>shape2 = (length (py_slice (rows3 (data ds)) (k + his_length ds)
                                   (k + his_length ds + pred_length ds)), N),
                    rows2 = map (map (\<lambda>v. v ! 0))
                      (py_slice (rows3 (data ds)) (k + his_length ds)
                         (k + his_length ds + pred_length ds))\<rparr>)"
  using assms by (simp add: MyDataset_getitem_def select_channel_def slice0_def Let_def)

text \<open>
  Claim C9, as the code has it. For a split of a tensor with at least one feature
  channel whose row range \<open>[s, e)\<close> is shorter than \<open>H + P\<close>, the constructor does not
  fail; \<^verbatim>\<open>__len__\<close> returns \<open>(e - s) - H - P + 1 \<le> 0\<close>, so no valid example is
  exposed, and the builtin \<^verbatim>\<open>len\<close> returns 0 or raises \<^verbatim>\<open>ValueError\<close>;
  \<^verbatim>\<open>__getitem__\<close> raises no index error at any offset: slices clamp, and the
  history and prediction windows returned at an offset \<open>k \<ge> 0\<close> hold together fewer
  than \<open>H + P\<close> rows.
\<close>

theorem MyDataset_short_split:
  assumes "wf_tensor3 d" and "shape3 d = (T, N, F)" and "0 < F"
    and "0 \<le> s" and "s \<le> e" and "e \<le> int T" and "0 \<le> H" and "0 \<le> P"
    and "e - s < H + P"
  shows "MyDataset_len (MyDataset_init d (of_int s) (of_int e) H P) = (e - s) - H - P + 1 \<and>
         MyDataset_len (MyDataset_init d (of_int s) (of_int e) H P) \<le> 0 \<and>
         (py_len (MyDataset_len (MyDataset_init d (of_int s) (of_int e) H P)) = Inr 0 \<or>
          py_len (MyDataset_len (MyDataset_init d (of_int s) (of_int e) H P)) = Inl ValueError) \<and>
         (\<forall>k. \<exists>x y. MyDataset_getitem (MyDataset_init d (of_int s) (of_int e) H P) k = Inr (x, y)) \<and>
         (\<forall>k x y. 0 \<le> k \<and>
            MyDataset_getitem (MyDataset_init d (of_int s) (of_int e) H P) k = Inr (x, y) \<longrightarrow>
            fst (snd (shape3 x)) + snd (shape2 y) < nat H + nat P)"
proof -
  let ?ds = "MyDataset_init d (of_int s) (of_int e) H P"
  let ?xs = "take (nat (e - s)) (drop (nat s) (rows3 d))"
  have dat: "data ?ds = \<lparr>shape3 = (nat (e - s), N, F), rows3 = ?xs\<rparr>"
    using assms by (simp add: init_fields py_int_of_int slice0_rows)
  have lenxs: "length ?xs = nat (e - s)"
    using assms by (auto simp: wf_tensor3_def)
  have len: "MyDataset_len ?ds = (e - s) - H - P + 1"
    using assms unfolding MyDataset_len_def dat by (simp add: init_fields)
  have tot: "MyDataset_getitem ?ds k =
    Inr (permute102 (slice0 (data ?ds) k (k + H)),
         permute10 \<lparr>shape2 = (length (py_slice ?xs (k + H) (k + H + P)), N),
                    rows2 = map (map (\<lambda>v. v ! 0)) (py_slice ?xs (k + H) (k + H + P))\<rparr>)" for k
    using getitem_total [of ?ds "nat (e - s)" N F k] assms(3) dat
    by (simp add: init_fields(1,2))
  have short: "fst (snd (shape3 x)) + snd (shape2 y) < nat H + nat P"
    if "0 \<le> k" "MyDataset_getitem ?ds k = Inr (x, y)" for k x y
  proof -
    have x: "fst (snd (shape3 x)) = length (py_slice ?xs k (k + H))"
      using that(2) unfolding tot by (auto simp: permute102_def slice0_def dat Let_def)
    have y: "snd (shape2 y) = length (py_slice ?xs (k + H) (k + H + P))"
      using that(2) unfolding tot by (auto simp: permute10_def)
    have "length (py_slice ?xs k (k + H)) = min (nat H) (nat (e - s) - nat k)"
      using that(1) assms(7) lenxs by (simp only: length_py_slice_window)
    moreover have "length (py_slice ?xs (k + H) (k + H + P)) =
        min (nat P) (nat (e - s) - nat (k + H))"
      using that(1) assms(7,8) lenxs length_py_slice_window [of "k + H" P ?xs] by simp
    ultimately show ?thesis
      using x y assms that(1) by (simp add: min_def) linarith
  qed
  have neg: "MyDataset_len ?ds \<le> 0" using len assms(9) by simp
  have pl: "py_len (MyDataset_len ?ds) = Inr 0 \<or> py_len (MyDataset_len ?ds) = Inl ValueError"
    using neg by (cases "MyDataset_len ?ds < 0") (simp_all add: py_len_def)
  have ex: "\<forall>k. \<exists>x y. MyDataset_getitem ?ds k = Inr (x, y)"
    using tot by blast
  have sh: "\<forall>k x y. 0 \<le> k \<and> MyDataset_getitem ?ds k = Inr (x, y) \<longrightarrow>
      fst (snd (shape3 x)) + snd (shape2 y) < nat H + nat P"
    using short by blast
  show ?thesis using len neg pl ex sh by (intro conjI)
qed

text \<open>
  Claim C9 as stated fails: on a two-row split with \<open>H = 2\<close> and \<open>P = 1\<close> the range
  is shorter than \<open>H + P\<close>, the length is 0, and \<^verbatim>\<open>__getitem__\<close> at offset 0
  returns a history of two rows and an empty prediction instead of raising.
\<close>

theorem MyDataset_index_error_counterexample:
  "MyDataset_len (MyDataset_init d2 0 2 2 1) = 0 \<and>
   MyDataset_getitem (MyDataset_init d2 0 2 2 1) 0 =
     Inr (\<lparr>shape3 = (1, 2, 1), rows3 = [[[5], [6]]]\<rparr>, \<lparr>shape2 = (1, 0), rows2 = [[]]\<rparr>)"
  by (simp add: MyDataset_len_def MyDataset_getitem_def MyDataset_init_def py_int_def d2_def
      slice0_def py_slice_def slice_bound_def permute102_def permute10_def select_channel_def
      Let_def)

text \<open>Claim C9, as the code has it, on the two-row split.\<close>

theorem MyDataset_short_split_witness:
  "wf_tensor3 d2 \<and> shape3 d2 = (2, 1, 1) \<and>
   MyDataset_len (MyDataset_init d2 0 2 2 1) = 0 \<and>
   (\<exists>x y. MyDataset_getitem (MyDataset_init d2 0 2 2 1) 0 = Inr (x, y) \<and>
      fst (snd (shape3 x)) + snd (shape2 y) < 3)"
proof -
  have wf: "wf_tensor3 d2" and sh: "shape3 d2 = (2, 1, 1)"
    by (simp_all add: d2_def wf_tensor3_def)
  note inst = MyDataset_short_split [OF wf sh, of 0 2 2 1]
  have len: "MyDataset_len (MyDataset_init d2 0 2 2 1) = 0"
    using inst by simp
  have tot: "\<forall>k. \<exists>x y. MyDataset_getitem (MyDataset_init d2 0 2 2 1) k = Inr (x, y)"
    using inst by simp
  have short: "\<forall>k x y. 0 \<le> k \<and>
      MyDataset_getitem (MyDataset_init d2 0 2 2 1) k = Inr (x, y) \<longrightarrow>
      fst (snd (shape3 x)) + snd (shape2 y) < 3"
    using inst by simp
  obtain x y where xy: "MyDataset_getitem (MyDataset_init d2 0 2 2 1) 0 = Inr (x, y)"
    using tot by blast
  have "fst (snd (shape3 x)) + snd (shape2 y) < 3"
    using short xy by blast
  then show ?thesis using wf sh len xy by blast
qed

lemma slice0_rows3: "rows3 (slice0 d a b) = py_slice (rows3 d) a b"
  by (simp add: slice0_def Let_def split: prod.splits)

lemma DataLoader_init_shuffle:
  "DataLoader_init ds bs True =
     (if 0 < bs \<and> 0 < MyDataset_len ds
      then Inr \<lparr>dataset = ds, loader_batch_size = bs, shuffle = True\<rparr>
      else Inl ValueError)"
proof (cases "MyDataset_len ds < 0")
  case True
  then show ?thesis by (simp add: DataLoader_init_def py_len_def)
next
  case False
  then show ?thesis
    by (cases "MyDataset_len ds = 0") (auto simp: DataLoader_init_def py_len_def)
qed

lemma generate_dataset_cases:
  "generate_dataset fl d a =
     (if 0 < batch_size a \<and> 0 < MyDataset_len (train_dataset fl d a) \<and>
         0 < MyDataset_len (valid_dataset fl d a) \<and> 0 < MyDataset_len (test_dataset fl d a)
      then Inr (\<lparr>dataset = train_dataset fl d a, loader_batch_size = batch_size a,
                   shuffle = True\<rparr>,
                \<lparr>dataset = valid_dataset fl d a, loader_batch_size = batch_size a,
                   shuffle = True\<rparr>,
                \<lparr>dataset = test_dataset fl d a, loader_batch_size = batch_size a,
                   shuffle = True\<rparr>)
      else Inl ValueError)"
  unfolding generate_dataset_def DataLoader_init_shuffle by simp

text \<open>
  Claim C3. For ratios \<open>0 \<le> train_ratio\<close>, \<open>0 \<le> valid_ratio\<close> with
  \<open>train_ratio + valid_ratio \<le> 1\<close>, the bounds \<open>lo = int(T * train_ratio)\<close> and
  \<open>hi = int(T * (train_ratio + valid_ratio))\<close> satisfy \<open>0 \<le> lo \<le> hi \<le> T\<close>, so the
  row ranges \<open>[0, lo)\<close>, \<open>[lo, hi)\<close> and \<open>[hi, T)\<close> are contiguous, pairwise disjoint
  and cover \<open>[0, T)\<close>; the train, validation and test datasets that
  \<^verbatim>\<open>generate_dataset\<close> constructs hold exactly the rows of these ranges, each row
  once and in order. The function returns the three loaders over these datasets when the
  batch size is positive and every split exposes at least one example, and raises
  \<^verbatim>\<open>ValueError\<close> otherwise. The rounding \<open>fl\<close> of the float operations is any
  monotone function that leaves 0, 1, \<open>T\<close> and the float \<open>train_ratio\<close> unchanged.
\<close>

theorem generate_dataset_split_ranges:
  assumes wf: "wf_tensor3 d" and sh: "shape3 d = (T, N, F)"
    and fl: "mono fl" "fl 0 = 0" "fl 1 = 1" "fl (real T) = real T"
      "fl (train_ratio a) = train_ratio a"
    and r: "0 \<le> train_ratio a" "0 \<le> valid_ratio a" "train_ratio a + valid_ratio a \<le> 1"
    and lo: "lo = py_int (fl (real T * train_ratio a))"
    and hi: "hi = py_int (fl (real T * fl (train_ratio a + valid_ratio a)))"
  shows "0 \<le> lo \<and> lo \<le> hi \<and> hi \<le> int T \<and>
         {0..<lo} \<union> {lo..<hi} \<union> {hi..<int T} = {0..<int T} \<and>
         {0..<lo} \<inter> {lo..<hi} = {} \<and> {lo..<hi} \<inter> {hi..<int T} = {} \<and>
         {0..<lo} \<inter> {hi..<int T} = {} \<and>
         rows3 (data (train_dataset fl d a)) = take (nat lo) (rows3 d) \<and>
         rows3 (data (valid_dataset fl d a)) = take (nat (hi - lo)) (drop (nat lo) (rows3 d)) \<and>
         rows3 (data (test_dataset fl d a)) = drop (nat hi) (rows3 d) \<and>
         rows3 (data (train_dataset fl d a)) @ rows3 (data (valid_dataset fl d a)) @
           rows3 (data (test_dataset fl d a)) = rows3 d \<and>
         MyDataset_len (train_dataset fl d a) =
           lo - args_his_length a - args_pred_length a + 1 \<and>
         MyDataset_len (valid_dataset fl d a) =
           (hi - lo) - args_his_length a - args_pred_length a + 1 \<and>
         MyDataset_len (test_dataset fl d a) =
           (int T - hi) - args_his_length a - args_pred_length a + 1 \<and>
         generate_dataset fl d a =
           (if 0 < batch_size a \<and> 0 < MyDataset_len (train_dataset fl d a) \<and>
               0 < MyDataset_len (valid_dataset fl d a) \<and>
               0 < MyDataset_len (test_dataset fl d a)
            then Inr (\<lparr>dataset = train_dataset fl d a, loader_batch_size = batch_size a,
                         shuffle = True\<rparr>,
                      \<lparr>dataset = valid_dataset fl d a, loader_batch_size = batch_size a,
                         shuffle = True\<rparr>,
                      \<lparr>dataset = test_dataset fl d a, loader_batch_size = batch_size a,
                         shuffle = True\<rparr>)
            else Inl ValueError)"
proof -
  let ?tr = "train_ratio a" and ?s = "fl (train_ratio a + valid_ratio a)"
  let ?xs = "rows3 d"
  let ?H = "args_his_length a" and ?P = "args_pred_length a"
  have len: "length ?xs = T"
    using wf sh by (simp add: wf_tensor3_def)
  have s1: "?s \<le> 1"
    using monoD [OF fl(1) r(3)] fl(3) by simp
  have trs: "?tr \<le> ?s"
  proof -
    have "?tr \<le> ?tr + valid_ratio a" using r(2) by simp
    from monoD [OF fl(1) this] show ?thesis using fl(5) by simp
  qed
  have "0 \<le> real T * ?tr" using r(1) by simp
  from monoD [OF fl(1) this] have "0 \<le> fl (real T * ?tr)" using fl(2) by simp
  then have lo0: "0 \<le> lo"
    using py_int_mono [of 0 "fl (real T * ?tr)"] lo by (simp add: py_int_def)
  have "real T * ?tr \<le> real T * ?s" using trs by (simp add: mult_left_mono)
  from monoD [OF fl(1) this] have lohi: "lo \<le> hi"
    unfolding lo hi by (rule py_int_mono)
  have "real T * ?s \<le> real T" using s1 by (simp add: mult_left_le)
  from monoD [OF fl(1) this] have "fl (real T * ?s) \<le> real T" using fl(4) by simp
  then have hiT: "hi \<le> int T"
    using py_int_mono [of "fl (real T * ?s)" "real T"] hi by (simp add: py_int_of_nat)
  have p0: "py_int 0 = 0" by (simp add: py_int_def)
  have dtrain: "data (train_dataset fl d a) = slice0 d 0 lo"
    using sh by (simp add: train_dataset_def init_fields p0 lo)
  have dvalid: "data (valid_dataset fl d a) = slice0 d lo hi"
    using sh by (simp add: valid_dataset_def init_fields lo hi)
  have dtest: "data (test_dataset fl d a) = slice0 d hi (int T)"
    using sh by (simp add: test_dataset_def init_fields hi py_int_of_nat)
  have s_train: "slice0 d 0 lo = \<lparr>shape3 = (nat lo, N, F), rows3 = take (nat lo) ?xs\<rparr>"
    using slice0_rows [OF wf sh, of 0 lo] lo0 lohi hiT by simp
  have s_valid: "slice0 d lo hi =
      \<lparr>shape3 = (nat (hi - lo), N, F), rows3 = take (nat (hi - lo)) (drop (nat lo) ?xs)\<rparr>"
    using slice0_rows [OF wf sh, of lo hi] lo0 lohi hiT by simp
  have s_test: "slice0 d hi (int T) =
      \<lparr>shape3 = (nat (int T - hi), N, F), rows3 = drop (nat hi) ?xs\<rparr>"
    using slice0_rows [OF wf sh, of hi "int T"] lo0 lohi hiT len by simp
  have cover: "take (nat lo) ?xs @ take (nat (hi - lo)) (drop (nat lo) ?xs) @ drop (nat hi) ?xs = ?xs"
    using three_parts [of "nat lo" "nat hi" ?xs] lo0 lohi by (simp add: nat_diff_distrib)
  have sets: "{0..<lo} \<union> {lo..<hi} \<union> {hi..<int T} = {0..<int T}"
    "{0..<lo} \<inter> {lo..<hi} = {}" "{lo..<hi} \<inter> {hi..<int T} = {}"
    "{0..<lo} \<inter> {hi..<int T} = {}"
    using lo0 lohi hiT by auto
  have rows: "rows3 (data (train_dataset fl d a)) = take (nat lo) ?xs"
    "rows3 (data (valid_dataset fl d a)) = take (nat (hi - lo)) (drop (nat lo) ?xs)"
    "rows3 (data (test_dataset fl d a)) = drop (nat hi) ?xs"
    by (simp_all add: dtrain dvalid dtest s_train s_valid s_test)
  have fields: "his_length (train_dataset fl d a) = ?H" "pred_length (train_dataset fl d a) = ?P"
    "his_length (valid_dataset fl d a) = ?H" "pred_length (valid_dataset fl d a) = ?P"
    "his_length (test_dataset fl d a) = ?H" "pred_length (test_dataset fl d a) = ?P"
    by (simp_all add: train_dataset_def valid_dataset_def test_dataset_def init_fields)
  have lens: "MyDataset_len (train_dataset fl d a) = lo - ?H - ?P + 1"
    "MyDataset_len (valid_dataset fl d a) = (hi - lo) - ?H - ?P + 1"
    "MyDataset_len (test_dataset fl d a) = (int T - hi) - ?H - ?P + 1"
    unfolding MyDataset_len_def fields dtrain dvalid dtest s_train s_valid s_test
    using lo0 lohi hiT by simp_all
  have all: "rows3 (data (train_dataset fl d a)) @ rows3 (data (valid_dataset fl d a)) @
           rows3 (data (test_dataset fl d a)) = ?xs"
    unfolding rows by (rule cover)
  show ?thesis
    using lo0 lohi hiT sets rows all lens generate_dataset_cases [of fl d a]
    by (intro conjI)
qed

lemma mono_round1024: "mono round1024"
  unfolding round1024_def
  by (intro monoI divide_right_mono of_int_le_iff [THEN iffD2] floor_mono) simp_all

text \<open>
  Claim C3 on 100 rows: with the ratios 0.6 and 0.2 the ranges are \<open>[0, 60)\<close>,
  \<open>[60, 80)\<close> and \<open>[80, 100)\<close> and the three loaders are returned; with an empty
  training split the function raises; and with a rounding that is not the identity and
  the ratios \<open>5/8\<close> and \<open>1/4\<close> the ranges are \<open>[0, 62)\<close>, \<open>[62, 87)\<close> and
  \<open>[87, 100)\<close>.
\<close>

theorem generate_dataset_split_ranges_witness:
  "wf_tensor3 d100 \<and> shape3 d100 = (100, 2, 2) \<and>
   {0..<60} \<union> {60..<80} \<union> {80..<100} = {0..<100::int} \<and>
   rows3 (data (train_dataset (\<lambda>x. x) d100 args100)) = take 60 (rows3 d100) \<and>
   rows3 (data (valid_dataset (\<lambda>x. x) d100 args100)) = take 20 (drop 60 (rows3 d100)) \<and>
   rows3 (data (test_dataset (\<lambda>x. x) d100 args100)) = drop 80 (rows3 d100) \<and>
   MyDataset_len (train_dataset (\<lambda>x. x) d100 args100) = 46 \<and>
   MyDataset_len (valid_dataset (\<lambda>x. x) d100 args100) = 6 \<and>
   MyDataset_len (test_dataset (\<lambda>x. x) d100 args100) = 6 \<and>
   generate_dataset (\<lambda>x. x) d100 args100 =
     Inr (\<lparr>dataset = train_dataset (\<lambda>x. x) d100 args100, loader_batch_size = 16,
            shuffle = True\<rparr>,
          \<lparr>dataset = valid_dataset (\<lambda>x. x) d100 args100, loader_batch_size = 16,
            shuffle = True\<rparr>,
          \<lparr>dataset = test_dataset (\<lambda>x. x) d100 args100, loader_batch_size = 16,
            shuffle = True\<rparr>) \<and>
   MyDataset_len (train_dataset (\<lambda>x. x) d100 args_train0) = - 14 \<and>
   generate_dataset (\<lambda>x. x) d100 args_train0 = Inl ValueError \<and>
   rows3 (data (train_dataset round1024 d100 args_eighths)) = take 62 (rows3 d100) \<and>
   rows3 (data (valid_dataset round1024 d100 args_eighths)) = take 25 (drop 62 (rows3 d100)) \<and>
   rows3 (data (test_dataset round1024 d100 args_eighths)) = drop 87 (rows3 d100)"
proof -
  have wf: "wf_tensor3 d100" and sh: "shape3 d100 = (100, 2, 2)"
    by (simp_all add: d100_def wf_tensor3_def list_all_iff)
  have m: "mono (\<lambda>x::real. x)" by (simp add: mono_def)
  have lo: "60 = py_int (real 100 * train_ratio args100)"
    and hi: "80 = py_int (real 100 * (train_ratio args100 + valid_ratio args100))"
    by (simp_all add: py_int_def args100_def)
  have r: "0 \<le> train_ratio args100" "0 \<le> valid_ratio args100"
    "train_ratio args100 + valid_ratio args100 \<le> 1"
    by (simp_all add: args100_def)
  note a = generate_dataset_split_ranges [of d100 100 2 2 "\<lambda>x. x" args100 60 80,
      OF wf sh m refl refl refl refl r lo hi]
  have lo0: "0 = py_int (real 100 * train_ratio args_train0)"
    and hi0: "20 = py_int (real 100 * (train_ratio args_train0 + valid_ratio args_train0))"
    by (simp_all add: py_int_def args_train0_def)
  have r0: "0 \<le> train_ratio args_train0" "0 \<le> valid_ratio args_train0"
    "train_ratio args_train0 + valid_ratio args_train0 \<le> 1"
    by (simp_all add: args_train0_def)
  note b = generate_dataset_split_ranges [of d100 100 2 2 "\<lambda>x. x" args_train0 0 20,
      OF wf sh m refl refl refl refl r0 lo0 hi0]
  have f: "round1024 0 = 0" "round1024 1 = 1" "round1024 (real 100) = real 100"
    "round1024 (train_ratio args_eighths) = train_ratio args_eighths"
    by (simp_all add: round1024_def args_eighths_def)
  have lo8: "62 = py_int (round1024 (real 100 * train_ratio args_eighths))"
    and hi8: "87 = py_int (round1024 (real 100 *
        round1024 (train_ratio args_eighths + valid_ratio args_eighths)))"
    by (simp_all add: py_int_def round1024_def args_eighths_def)
  have r8: "0 \<le> train_ratio args_eighths" "0 \<le> valid_ratio args_eighths"
    "train_ratio args_eighths + valid_ratio args_eighths \<le> 1"
    by (simp_all add: args_eighths_def)
  note c = generate_dataset_split_ranges [of d100 100 2 2 round1024 args_eighths 62 87,
      OF wf sh mono_round1024 f r8 lo8 hi8]
  have H: "args_his_length args100 = 12" "args_pred_length args100 = 3" "batch_size args100 = 16"
    "args_his_length args_train0 = 12" "args_pred_length args_train0 = 3"
    "batch_size args_train0 = 16"
    by (simp_all add: args100_def args_train0_def)
  have 1: "{0..<60} \<union> {60..<80} \<union> {80..<100} = {0..<100::int}" using a by simp
  have 2: "rows3 (data (train_dataset (\<lambda>x. x) d100 args100)) = take 60 (rows3 d100)"
    "rows3 (data (valid_dataset (\<lambda>x. x) d100 args100)) = take 20 (drop 60 (rows3 d100))"
    "rows3 (data (test_dataset (\<lambda>x. x) d100 args100)) = drop 80 (rows3 d100)"
    using a by simp_all
  have 3: "MyDataset_len (train_dataset (\<lambda>x. x) d100 args100) = 46"
    "MyDataset_len (valid_dataset (\<lambda>x. x) d100 args100) = 6"
    "MyDataset_len (test_dataset (\<lambda>x. x) d100 args100) = 6"
    using a by (simp_all add: H)
  have 4: "generate_dataset (\<lambda>x. x) d100 args100 =
     Inr (\<lparr>dataset = train_dataset (\<lambda>x. x) d100 args100, loader_batch_size = 16,
            shuffle = True\<rparr>,
          \<lparr>dataset = valid_dataset (\<lambda>x. x) d100 args100, loader_batch_size = 16,
            shuffle = True\<rparr>,
          \<lparr>dataset = test_dataset (\<lambda>x. x) d100 args100, loader_batch_size = 16,
            shuffle = True\<rparr>)"
    using a 3 by (simp add: H)
  have 5: "MyDataset_len (train_dataset (\<lambda>x. x) d100 args_train0) = - 14"
    using b by (simp add: H)
  have 6: "generate_dataset (\<lambda>x. x) d100 args_train0 = Inl ValueError"
    using b 5 by simp
  have 7: "rows3 (data (train_dataset round1024 d100 args_eighths)) = take 62 (rows3 d100)"
    "rows3 (data (valid_dataset round1024 d100 args_eighths)) = take 25 (drop 62 (rows3 d100))"
    "rows3 (data (test_dataset round1024 d100 args_eighths)) = drop 87 (rows3 d100)"
    using c by simp_all
  show ?thesis using wf sh 1 2 3 4 5 6 7 by (intro conjI)
qed

section \<open>Loops over matrices\<close>

lemma for_each_append:
  "for_each (xs @ ys) body s = bind (for_each xs body s) (for_each ys body)"
  by (induction xs arbitrary: s) (simp_all add: bind_def split: sum.splits)

lemma for_each_map:
  "for_each (map g xs) body s = for_each xs (\<lambda>x. body (g x)) s"
  by (induction xs arbitrary: s) (simp_all add: bind_def split: sum.splits)

text \<open>A loop nest is one loop over the pairs of indices, in the order of the nest.\<close>

lemma for_each_nest:
  "for_each outer (\<lambda>i. for_each (inner i) (body i)) s =
   for_each (index_pairs outer inner) (\<lambda>(i, j). body i j) s"
proof (induction outer arbitrary: s)
  case Nil
  then show ?case by (simp add: index_pairs_def)
next
  case (Cons i outer)
  have "for_each (index_pairs (i # outer) inner) (\<lambda>(i, j). body i j) s =
        bind (for_each (inner i) (body i) s)
          (for_each (index_pairs outer inner) (\<lambda>(i, j). body i j))"
    by (simp add: index_pairs_def for_each_append for_each_map)
  also have "\<dots> = bind (for_each (inner i) (body i) s)
      (for_each outer (\<lambda>i. for_each (inner i) (body i)))"
    using Cons.IH by (cases "for_each (inner i) (body i) s") simp_all
  finally show ?case by simp
qed

lemma set_index_pairs:
  "set (index_pairs outer inner) = {(i, j). i \<in> set outer \<and> j \<in> set (inner i)}"
  by (auto simp: index_pairs_def)

lemma square_np_full: "square n (np_full n n v)"
  by (simp add: square_def np_full_def list_all_iff)

lemma np_full_nth: "i < n \<Longrightarrow> j < n \<Longrightarrow> np_full n n v ! i ! j = v"
  by (simp add: np_full_def)

lemma square_update:
  assumes "square n m"
  shows "square n (m[i := (m ! i)[j := v]])"
proof (cases "i < length m")
  case True
  have "length r = n" if "r \<in> set (m[i := (m ! i)[j := v]])" for r
  proof -
    from that have "r = (m ! i)[j := v] \<or> r \<in> set m"
      using set_update_subset_insert [of m i "(m ! i)[j := v]"] by auto
    moreover have "length ((m ! i)[j := v]) = n"
      using assms True by (simp add: square_def list_all_iff)
    ultimately show ?thesis using assms by (auto simp: square_def list_all_iff)
  qed
  then show ?thesis using assms by (simp add: square_def list_all_iff)
next
  case False
  then have "m[i := (m ! i)[j := v]] = m" by (simp add: list_update_beyond)
  then show ?thesis using assms by simp
qed

lemma update_nth2:
  assumes "square n m" "i < n" "j < n" "a < n" "b < n"
  shows "m[i := (m ! i)[j := v]] ! a ! b = (if a = i \<and> b = j then v else m ! a ! b)"
  using assms by (auto simp: square_def list_all_iff nth_list_update)

lemma np_set_square:
  assumes "square n m" "i < n" "j < n"
  shows "np_set m i j v = Inr (m[i := (m ! i)[j := v]])"
  using assms by (simp add: np_set_def square_def list_all_iff)

lemma np_get_square:
  assumes "square n m" "i < n" "j < n"
  shows "np_get m i j = Inr (m ! i ! j)"
  using assms by (simp add: np_get_def square_def list_all_iff)

text \<open>A loop whose body writes, at some of the cells it visits, a value that depends on the
  cell only.\<close>

lemma for_each_writes:
  assumes "square n m"
    and "\<And>p. p \<in> set ps \<Longrightarrow> c p \<Longrightarrow> fst p < n \<and> snd p < n"
    and "\<And>p m. p \<in> set ps \<Longrightarrow>
           body p m = (if c p then np_set m (fst p) (snd p) (v p) else Inr m)"
  shows "\<exists>m'. for_each ps body m = Inr m' \<and> square n m' \<and>
           (\<forall>a<n. \<forall>b<n. m' ! a ! b = (if (a, b) \<in> set ps \<and> c (a, b) then v (a, b) else m ! a ! b))"
  using assms
proof (induction ps arbitrary: m)
  case Nil
  then show ?case by simp
next
  case (Cons p ps)
  obtain i j where p: "p = (i, j)" by (cases p)
  show ?case
  proof (cases "c p")
    case False
    have "body p m = Inr m" using Cons.prems(3) [of p m] False by simp
    moreover obtain m' where "for_each ps body m = Inr m'" "square n m'"
      "\<forall>a<n. \<forall>b<n. m' ! a ! b = (if (a, b) \<in> set ps \<and> c (a, b) then v (a, b) else m ! a ! b)"
      using Cons.IH [of m] Cons.prems by auto
    ultimately show ?thesis using False p by auto
  next
    case True
    then have ij: "i < n" "j < n" using Cons.prems(2) [of p] p by auto
    let ?m1 = "m[i := (m ! i)[j := v p]]"
    have step: "body p m = Inr ?m1"
      using Cons.prems(3) [of p m] True p np_set_square [OF Cons.prems(1) ij] by simp
    have sq1: "square n ?m1" using Cons.prems(1) by (rule square_update)
    obtain m' where m': "for_each ps body ?m1 = Inr m'" "square n m'"
      "\<forall>a<n. \<forall>b<n. m' ! a ! b =
         (if (a, b) \<in> set ps \<and> c (a, b) then v (a, b) else ?m1 ! a ! b)"
      using Cons.IH [of ?m1] sq1 Cons.prems(2,3) by auto
    have "m' ! a ! b = (if (a, b) \<in> set (p # ps) \<and> c (a, b) then v (a, b) else m ! a ! b)"
      if "a < n" "b < n" for a b
      using m'(3) that update_nth2 [OF Cons.prems(1) ij that] True p by auto
    then show ?thesis using step m'(1,2) by simp
  qed
qed

text \<open>A loop that copies, into each cell it visits below the diagonal, the cell mirrored at
  the diagonal.\<close>

lemma for_each_mirror:
  assumes "square n m"
    and "\<And>i j. (i, j) \<in> set ps \<Longrightarrow> j < i \<and> i < n"
  shows "\<exists>m'. for_each ps (\<lambda>(i, j) m. bind (np_get m j i) (np_set m i j)) m = Inr m' \<and>
           square n m' \<and>
           (\<forall>a<n. \<forall>b<n. m' ! a ! b = (if (a, b) \<in> set ps then m ! b ! a else m ! a ! b))"
  using assms
proof (induction ps arbitrary: m)
  case Nil
  then show ?case by simp
next
  case (Cons p ps)
  obtain i j where p: "p = (i, j)" by (cases p)
  have ij: "j < i" "i < n" "j < n" using Cons.prems(2) [of i j] p by auto
  let ?body = "\<lambda>(i, j) m. bind (np_get m j i) (np_set m i j)"
  let ?m1 = "m[i := (m ! i)[j := m ! j ! i]]"
  have step: "?body p m = Inr ?m1"
    using p np_get_square [OF Cons.prems(1) ij(3,2)] np_set_square [OF Cons.prems(1) ij(2,3)]
    by simp
  have sq1: "square n ?m1" using Cons.prems(1) by (rule square_update)
  obtain m' where m': "for_each ps ?body ?m1 = Inr m'" "square n m'"
    "\<forall>a<n. \<forall>b<n. m' ! a ! b = (if (a, b) \<in> set ps then ?m1 ! b ! a else ?m1 ! a ! b)"
    using Cons.IH [of ?m1] sq1 Cons.prems(2) by auto
  have "m' ! a ! b = (if (a, b) \<in> set (p # ps) then m ! b ! a else m ! a ! b)"
    if ab: "a < n" "b < n" for a b
  proof (cases "(a, b) \<in> set ps")
    case True
    then have "b < a" using Cons.prems(2) [of a b] by simp
    then have "?m1 ! b ! a = m ! b ! a"
      using update_nth2 [OF Cons.prems(1) ij(2,3) ab(2,1)] ij(1) by auto
    then show ?thesis using m'(3) ab True by simp
  next
    case False
    then show ?thesis
      using m'(3) ab update_nth2 [OF Cons.prems(1) ij(2,3) ab] p by auto
  qed
  then show ?case using step m'(1,2) by simp
qed

section \<open>The semantic distance matrix is symmetric\<close>

lemma dtw_fill_cells:
  assumes "square (length P) m"
  shows "\<exists>m'. dtw_fill f P m = Inr m' \<and> square (length P) m' \<and>
           (\<forall>a<length P. \<forall>b<length P.
              m' ! a ! b = (if a \<le> b then f (P ! a) (P ! b) else m ! a ! b))"
proof -
  let ?n = "length P"
  let ?ps = "index_pairs [0..<?n] (\<lambda>i. [i..<?n])"
  let ?body = "\<lambda>(i, j) m. np_set m i j (f (P ! i) (P ! j))"
  have flat: "dtw_fill f P m = for_each ?ps ?body m"
    unfolding dtw_fill_def by (rule for_each_nest)
  have "\<exists>m'. for_each ?ps ?body m = Inr m' \<and> square ?n m' \<and>
          (\<forall>a<?n. \<forall>b<?n. m' ! a ! b =
             (if (a, b) \<in> set ?ps \<and> True then f (P ! fst (a, b)) (P ! snd (a, b)) else m ! a ! b))"
    by (rule for_each_writes [OF assms]) (auto simp: set_index_pairs)
  then show ?thesis
    unfolding flat by (auto simp: set_index_pairs)
qed

lemma dtw_mirror_cells:
  assumes "square n m"
  shows "\<exists>m'. dtw_mirror n m = Inr m' \<and> square n m' \<and>
           (\<forall>a<n. \<forall>b<n. m' ! a ! b = (if b < a then m ! b ! a else m ! a ! b))"
proof -
  let ?ps = "index_pairs [0..<n] (\<lambda>i. [0..<i])"
  let ?body = "\<lambda>(i, j) m. bind (np_get m j i) (np_set m i j)"
  have flat: "dtw_mirror n m = for_each ?ps ?body m"
    unfolding dtw_mirror_def by (rule for_each_nest)
  have "\<exists>m'. for_each ?ps ?body m = Inr m' \<and> square n m' \<and>
          (\<forall>a<n. \<forall>b<n. m' ! a ! b = (if (a, b) \<in> set ?ps then m ! b ! a else m ! a ! b))"
    by (rule for_each_mirror [OF assms]) (auto simp: set_index_pairs)
  then show ?thesis
    unfolding flat by (auto simp: set_index_pairs)
qed

text \<open>
  Claim C5. The semantic distance matrix the builder produces is symmetric. For every
  engine \<open>fastdtw\<close> and every list of node profiles the builder returns an
  \<open>N \<times> N\<close> matrix whose cell \<open>(i, j)\<close> is the engine's distance of the profiles
  \<open>i\<close> and \<open>j\<close> when \<open>i \<le> j\<close>, and the mirrored cell \<open>(j, i)\<close> when \<open>i > j\<close>;
  hence \<open>dist[i][j] = dist[j][i]\<close> for all \<open>i, j < N\<close>, whether or not the engine itself
  is symmetric.
\<close>

theorem dtw_distance_matrix_symmetric:
  "\<exists>M. dtw_distance_matrix fastdtw data_mean = Inr M \<and>
       square (length data_mean) M \<and>
       (\<forall>i<length data_mean. \<forall>j<length data_mean.
          M ! i ! j = (if i \<le> j then fastdtw (data_mean ! i) (data_mean ! j)
                       else fastdtw (data_mean ! j) (data_mean ! i)) \<and>
          M ! i ! j = M ! j ! i)"
proof -
  let ?n = "length data_mean"
  have sq0: "square ?n (np_zeros ?n ?n)"
    by (simp add: np_zeros_def square_np_full)
  obtain m1 where m1: "dtw_fill fastdtw data_mean (np_zeros ?n ?n) = Inr m1" "square ?n m1"
    "\<forall>a<?n. \<forall>b<?n. m1 ! a ! b =
       (if a \<le> b then fastdtw (data_mean ! a) (data_mean ! b) else np_zeros ?n ?n ! a ! b)"
    using dtw_fill_cells [OF sq0, of fastdtw] by blast
  obtain m2 where m2: "dtw_mirror ?n m1 = Inr m2" "square ?n m2"
    "\<forall>a<?n. \<forall>b<?n. m2 ! a ! b = (if b < a then m1 ! b ! a else m1 ! a ! b)"
    using dtw_mirror_cells [OF m1(2)] by blast
  have res: "dtw_distance_matrix fastdtw data_mean = Inr m2"
    by (simp add: dtw_distance_matrix_def Let_def m1(1) m2(1))
  have cell: "m2 ! i ! j = (if i \<le> j then fastdtw (data_mean ! i) (data_mean ! j)
                       else fastdtw (data_mean ! j) (data_mean ! i))"
    if "i < ?n" "j < ?n" for i j
    using m1(3) m2(3) that by auto
  have "m2 ! i ! j = m2 ! j ! i" if "i < ?n" "j < ?n" for i j
    using cell [OF that] cell [OF that(2,1)] by (cases "i = j") auto
  then show ?thesis using res m2(2) cell by blast
qed

text \<open>Claim C5 on three profiles and an engine that is not symmetric.\<close>

theorem dtw_distance_matrix_symmetric_witness:
  "dtw_distance_matrix (\<lambda>x y. x - 2 * y) [1, 2, 3 :: real] =
     Inr [[- 1, - 3, - 5], [- 3, - 2, - 4], [- 5, - 4, - 3]]"
proof -
  let ?P = "[1, 2, 3 :: real]"
  obtain M where M: "dtw_distance_matrix (\<lambda>x y. x - 2 * y) ?P = Inr M"
    "square (length ?P) M"
    "\<forall>i<length ?P. \<forall>j<length ?P.
       M ! i ! j = (if i \<le> j then ?P ! i - 2 * ?P ! j else ?P ! j - 2 * ?P ! i) \<and>
       M ! i ! j = M ! j ! i"
    using dtw_distance_matrix_symmetric [of "\<lambda>x y. x - 2 * y" ?P] by blast
  have rows: "length M = 3" "length (M ! 0) = 3" "length (M ! 1) = 3" "length (M ! 2) = 3"
    using M(2) by (simp_all add: square_def list_all_iff)
  have c: "M ! 0 ! 0 = - 1" "M ! 0 ! 1 = - 3" "M ! 0 ! 2 = - 5"
    "M ! 1 ! 0 = - 3" "M ! 1 ! 1 = - 2" "M ! 1 ! 2 = - 4"
    "M ! 2 ! 0 = - 5" "M ! 2 ! 1 = - 4" "M ! 2 ! 2 = - 3"
    using M(3) by (simp_all add: nth_Cons')
  have r: "r = [r ! 0, r ! 1, r ! 2]" if "length r = 3" for r :: "'a list"
    using that by (intro nth_equalityI) (auto simp: nth_Cons' less_Suc_eq numeral_3_eq_3 numeral_2_eq_2)
  have "M = [M ! 0, M ! 1, M ! 2]" using rows(1) by (rule r)
  moreover have "M ! 0 = [- 1, - 3, - 5]" using r [OF rows(2)] c by simp
  moreover have "M ! 1 = [- 3, - 2, - 4]" using r [OF rows(3)] c by simp
  moreover have "M ! 2 = [- 5, - 4, - 3]" using r [OF rows(4)] c by simp
  ultimately show ?thesis using M(1) by simp
qed

section \<open>The spatial distance matrix\<close>

lemma np_index_less: "np_index n i = Inr a \<Longrightarrow> a < n"
  by (auto simp: np_index_def split: if_splits)

lemma np_set_int_square:
  assumes "square n m" "np_index n i = Inr a" "np_index n j = Inr b"
  shows "np_set_int m i j v = Inr (m[a := (m ! a)[b := v]])"
proof -
  have "length m = n" "length (m ! a) = n"
    using assms np_index_less [OF assms(2)] by (simp_all add: square_def list_all_iff)
  then show ?thesis using assms by (simp add: np_set_int_def)
qed

lemma np_set_int_fails:
  assumes "square n m" "np_index n i = Inl e \<or> np_index n j = Inl e'"
  shows "\<exists>e. np_set_int m i j v = Inl e"
proof (cases "np_index n i")
  case (Inl x)
  then show ?thesis using assms by (simp add: np_set_int_def square_def)
next
  case (Inr a)
  then have "length (m ! a) = n"
    using assms np_index_less [OF Inr] by (simp add: square_def list_all_iff)
  then show ?thesis using assms Inr by (auto simp: np_set_int_def square_def)
qed

lemma square_set_both: "square n m \<Longrightarrow> square n (set_both m a b d)"
  unfolding set_both_def Let_def by (intro square_update)

lemma set_both_nth:
  assumes "square n m" "a < n" "b < n" "i < n" "j < n"
  shows "set_both m a b d ! i ! j =
           (if (i, j) = (a, b) \<or> (i, j) = (b, a) then d else m ! i ! j)"
proof -
  let ?m1 = "m[a := (m ! a)[b := d]]"
  have sq1: "square n ?m1" using assms(1) by (rule square_update)
  have 1: "?m1 ! i ! j = (if i = a \<and> j = b then d else m ! i ! j)"
    using assms by (rule update_nth2)
  have 2: "?m1[b := (?m1 ! b)[a := d]] ! i ! j = (if i = b \<and> j = a then d else ?m1 ! i ! j)"
    using sq1 assms(3,2,4,5) by (rule update_nth2)
  have "set_both m a b d ! i ! j = ?m1[b := (?m1 ! b)[a := d]] ! i ! j"
    by (simp only: set_both_def Let_def)
  also have "\<dots> = (if i = b \<and> j = a then d else (if i = a \<and> j = b then d else m ! i ! j))"
    by (simp only: 2 1)
  also have "\<dots> = (if (i, j) = (a, b) \<or> (i, j) = (b, a) then d else m ! i ! j)"
    by (cases "i = a"; cases "j = b"; cases "i = b"; cases "j = a"; simp)
  finally show ?thesis .
qed

lemma parsed_row_cases:
  obtains (fail) e where "parsed_row int_of float_of line = Inl e"
      and "\<And>m. spatial_row int_of float_of line m = Inl e"
  | (ok) s e d where "parsed_row int_of float_of line = Inr (s, e, d)"
      and "\<And>m. spatial_row int_of float_of line m =
             bind (np_set_int m s e d) (\<lambda>m1. np_set_int m1 e s d)"
proof (cases "bind (py_item line 0) int_of")
  case (Inl x)
  then show ?thesis
    by (intro fail [of x]) (simp_all only: parsed_row_def spatial_row_def bind_Inl)
next
  case s: (Inr s)
  show ?thesis
  proof (cases "bind (py_item line 1) int_of")
    case (Inl x)
    then show ?thesis using s
      by (intro fail [of x]) (simp_all only: parsed_row_def spatial_row_def bind_Inl bind_Inr)
  next
    case e: (Inr e)
    show ?thesis
    proof (cases "bind (py_item line 2) float_of")
      case (Inl x)
      then show ?thesis using s e
        by (intro fail [of x]) (simp_all only: parsed_row_def spatial_row_def bind_Inl bind_Inr)
    next
      case (Inr d)
      then show ?thesis using s e
        by (intro ok [of s e d]) (simp_all only: parsed_row_def spatial_row_def bind_Inr)
    qed
  qed
qed

lemma spatial_row_Some:
  assumes "square n m" "row_cells int_of float_of n line = Some (a, b, d)"
  shows "spatial_row int_of float_of line m = Inr (set_both m a b d)" "a < n" "b < n"
proof -
  from assms(2) obtain s e where
    p: "parsed_row int_of float_of line = Inr (s, e, d)"
    and s: "np_index n s = Inr a" and e: "np_index n e = Inr b"
    unfolding row_cells_def by (auto split: sum.splits prod.splits)
  have f: "spatial_row int_of float_of line m =
             bind (np_set_int m s e d) (\<lambda>m1. np_set_int m1 e s d)"
    using p by (cases rule: parsed_row_cases [of int_of float_of line]) simp_all
  show "a < n" "b < n" using s e by (auto dest: np_index_less)
  let ?m1 = "m[a := (m ! a)[b := d]]"
  have sq1: "square n ?m1" using assms(1) by (rule square_update)
  show "spatial_row int_of float_of line m = Inr (set_both m a b d)"
    unfolding f set_both_def Let_def
    by (simp only: bind_Inr np_set_int_square [OF assms(1) s e]
        np_set_int_square [OF sq1 e s])
qed

lemma spatial_row_None:
  assumes "square n m" "row_cells int_of float_of n line = None"
  shows "\<exists>e. spatial_row int_of float_of line m = Inl e"
proof (cases rule: parsed_row_cases [of int_of float_of line])
  case (fail e)
  then show ?thesis by blast
next
  case (ok s e d)
  from assms(2) ok(1) have "(\<exists>x. np_index n s = Inl x) \<or> (\<exists>x. np_index n e = Inl x)"
    unfolding row_cells_def by (auto split: sum.splits)
  then obtain x y where "np_index n s = Inl x \<or> np_index n e = Inl y" by blast
  from np_set_int_fails [OF assms(1) this] obtain z where "np_set_int m s e d = Inl z"
    by blast
  then show ?thesis
    unfolding ok(2) by (simp only: bind_Inl) blast
qed

lemma symmetric_set_both:
  assumes "square n m" "symmetric n m" "a < n" "b < n"
  shows "symmetric n (set_both m a b d)"
  unfolding symmetric_def
proof (intro allI impI)
  fix i j assume ij: "i < n" "j < n"
  have "set_both m a b d ! i ! j = (if (i, j) = (a, b) \<or> (i, j) = (b, a) then d else m ! i ! j)"
    using assms(1,3,4) ij by (rule set_both_nth)
  moreover have "set_both m a b d ! j ! i =
      (if (j, i) = (a, b) \<or> (j, i) = (b, a) then d else m ! j ! i)"
    using assms(1,3,4) ij(2,1) by (rule set_both_nth)
  moreover have "m ! i ! j = m ! j ! i" using assms(2) ij by (simp add: symmetric_def)
  ultimately show "set_both m a b d ! i ! j = set_both m a b d ! j ! i"
    by (cases "i = a"; cases "j = b"; cases "i = b"; cases "j = a"; simp)
qed

lemma spatial_loop:
  assumes "square n m"
  shows "case for_each lines (spatial_row I F) m of
           Inl e \<Rightarrow> \<exists>line\<in>set lines. row_cells I F n line = None
         | Inr M \<Rightarrow> square n M \<and>
             (\<forall>line\<in>set lines. row_cells I F n line \<noteq> None) \<and>
             (\<forall>i<n. \<forall>j<n. (\<forall>line\<in>set lines. \<not> touches I F n line i j) \<longrightarrow>
                M ! i ! j = m ! i ! j) \<and>
             (symmetric n m \<longrightarrow> symmetric n M)"
  using assms
proof (induction lines arbitrary: m)
  case Nil
  then show ?case by simp
next
  case (Cons line lines)
  show ?case
  proof (cases "row_cells I F n line")
    case None
    then obtain e where "spatial_row I F line m = Inl e"
      using spatial_row_None [OF Cons.prems] by blast
    then show ?thesis using None by simp
  next
    case (Some t)
    obtain a b d where t: "t = (a, b, d)" by (cases t)
    let ?m1 = "set_both m a b d"
    have row: "spatial_row I F line m = Inr ?m1" and ab: "a < n" "b < n"
      using spatial_row_Some [OF Cons.prems] Some t by simp_all
    have sq1: "square n ?m1" using Cons.prems by (rule square_set_both)
    have step: "for_each (line # lines) (spatial_row I F) m = for_each lines (spatial_row I F) ?m1"
      by (simp add: row)
    show ?thesis
    proof (cases "for_each lines (spatial_row I F) ?m1")
      case (Inl e)
      then have "\<exists>l\<in>set lines. row_cells I F n l = None"
        using Cons.IH [OF sq1] by simp
      then show ?thesis unfolding step Inl by auto
    next
      case (Inr M)
      have ih: "square n M" "\<forall>l\<in>set lines. row_cells I F n l \<noteq> None"
        "\<forall>i<n. \<forall>j<n. (\<forall>l\<in>set lines. \<not> touches I F n l i j) \<longrightarrow> M ! i ! j = ?m1 ! i ! j"
        "symmetric n ?m1 \<longrightarrow> symmetric n M"
        using Cons.IH [OF sq1] Inr by simp_all
      have all: "\<forall>l\<in>set (line # lines). row_cells I F n l \<noteq> None"
        using ih(2) Some by (simp only: set_simps ball_simps option.distinct not_False_eq_True simp_thms)
      have keep: "M ! i ! j = m ! i ! j"
        if ij: "i < n" "j < n" and nt: "\<forall>l\<in>set (line # lines). \<not> touches I F n l i j" for i j
      proof -
        have "\<not> touches I F n line i j" using nt by simp
        then have neg: "\<not> ((i, j) = (a, b) \<or> (i, j) = (b, a))"
          using Some t by (simp add: touches_def)
        have "?m1 ! i ! j = (if (i, j) = (a, b) \<or> (i, j) = (b, a) then d else m ! i ! j)"
          using Cons.prems ab ij by (rule set_both_nth)
        also have "\<dots> = m ! i ! j" using neg by (rule if_not_P)
        finally have "?m1 ! i ! j = m ! i ! j" .
        moreover have "M ! i ! j = ?m1 ! i ! j" using ih(3) ij nt by simp
        ultimately show ?thesis by simp
      qed
      have sym: "symmetric n M" if "symmetric n m"
        using ih(4) symmetric_set_both [OF Cons.prems that ab] by blast
      show ?thesis
        unfolding step Inr using ih(1) all keep sym by simp
    qed
  qed
qed

lemma touches_commute: "touches I F n line i j \<longleftrightarrow> touches I F n line j i"
  by (auto simp: touches_def split: option.splits)

lemma last_write_Cons:
  assumes "last_write I F n lines i j = None" "row_cells I F n line = Some (a, b, d)"
  shows "last_write I F n (line # lines) i j =
           (if (i, j) = (a, b) \<or> (i, j) = (b, a) then Some d else None)"
  by (simp only: last_write.simps assms option.case prod.case)

lemma last_write_Cons_untouched:
  assumes "last_write I F n lines i j = None" "\<not> touches I F n line i j"
  shows "last_write I F n (line # lines) i j = None"
proof (cases "row_cells I F n line")
  case None
  then show ?thesis using assms(1) by simp
next
  case (Some t)
  obtain a b d where t: "t = (a, b, d)" by (cases t)
  have rc: "row_cells I F n line = Some (a, b, d)" using Some t by simp
  have neg: "\<not> ((i, j) = (a, b) \<or> (i, j) = (b, a))"
    using assms(2) by (simp add: touches_def rc)
  show ?thesis
    unfolding last_write_Cons [OF assms(1) rc] using neg by (rule if_not_P)
qed

lemma last_write_None:
  "(\<forall>l\<in>set lines. \<not> touches I F n l i j) \<Longrightarrow> last_write I F n lines i j = None"
proof (induction lines)
  case Nil
  then show ?case by simp
next
  case (Cons line lines)
  then have "last_write I F n lines i j = None" and nt: "\<not> touches I F n line i j"
    by simp_all
  then show ?case by (rule last_write_Cons_untouched)
qed

lemma last_write_append:
  "last_write I F n (pre @ post) i j =
     (case last_write I F n post i j of Some d \<Rightarrow> Some d | None \<Rightarrow> last_write I F n pre i j)"
proof (induction pre)
  case Nil
  then show ?case by (cases "last_write I F n post i j") simp_all
next
  case (Cons line pre)
  then show ?case by (cases "last_write I F n post i j") simp_all
qed

lemma last_write_row:
  assumes "row_cells I F n line = Some (a, b, d)"
    and "\<forall>l\<in>set post. \<not> touches I F n l a b"
  shows "last_write I F n (pre @ line # post) a b = Some d"
    and "last_write I F n (pre @ line # post) b a = Some d"
proof -
  have n1: "last_write I F n post a b = None" using assms(2) by (rule last_write_None)
  have "\<forall>l\<in>set post. \<not> touches I F n l b a"
    using assms(2) touches_commute by blast
  then have n2: "last_write I F n post b a = None" by (rule last_write_None)
  have "last_write I F n (line # post) a b = Some d"
    unfolding last_write_Cons [OF n1 assms(1)] by (rule if_P) simp
  then show "last_write I F n (pre @ line # post) a b = Some d"
    by (simp only: last_write_append option.case)
  have "last_write I F n (line # post) b a = Some d"
    unfolding last_write_Cons [OF n2 assms(1)] by (rule if_P) simp
  then show "last_write I F n (pre @ line # post) b a = Some d"
    by (simp only: last_write_append option.case)
qed

lemma spatial_loop_cells:
  assumes "square n m" and "for_each lines (spatial_row I F) m = Inr M"
    and "i < n" "j < n"
  shows "M ! i ! j = (case last_write I F n lines i j of None \<Rightarrow> m ! i ! j | Some d \<Rightarrow> d)"
  using assms(1,2)
proof (induction lines arbitrary: m)
  case Nil
  then show ?case by simp
next
  case (Cons line lines)
  show ?case
  proof (cases "row_cells I F n line")
    case None
    then obtain e where "spatial_row I F line m = Inl e"
      using spatial_row_None [OF Cons.prems(1)] by blast
    then show ?thesis using Cons.prems(2) by simp
  next
    case (Some t)
    obtain a b d where t: "t = (a, b, d)" by (cases t)
    let ?m1 = "set_both m a b d"
    have row: "spatial_row I F line m = Inr ?m1" and ab: "a < n" "b < n"
      using spatial_row_Some [OF Cons.prems(1)] Some t by simp_all
    have sq1: "square n ?m1" using Cons.prems(1) by (rule square_set_both)
    have rest: "for_each lines (spatial_row I F) ?m1 = Inr M"
      using Cons.prems(2) by (simp add: row)
    note ih = Cons.IH [OF sq1 rest]
    have m1: "?m1 ! i ! j = (if (i, j) = (a, b) \<or> (i, j) = (b, a) then d else m ! i ! j)"
      using Cons.prems(1) ab assms(3,4) by (rule set_both_nth)
    show ?thesis
    proof (cases "last_write I F n lines i j")
      case (Some d')
      then show ?thesis using ih by simp
    next
      case None
      have rc: "row_cells I F n line = Some (a, b, d)"
        using \<open>row_cells I F n line = Some t\<close> t by simp
      have M: "M ! i ! j = ?m1 ! i ! j" using ih None by simp
      show ?thesis
      proof (cases "(i, j) = (a, b) \<or> (i, j) = (b, a)")
        case True
        have "last_write I F n (line # lines) i j = Some d"
          unfolding last_write_Cons [OF None rc] using True by (rule if_P)
        moreover have "?m1 ! i ! j = d" unfolding m1 using True by (rule if_P)
        ultimately show ?thesis using M by simp
      next
        case False
        have "last_write I F n (line # lines) i j = None"
          unfolding last_write_Cons [OF None rc] using False by (rule if_not_P)
        moreover have "?m1 ! i ! j = m ! i ! j" unfolding m1 using False by (rule if_not_P)
        ultimately show ?thesis using M by simp
      qed
    qed
  qed
qed

text \<open>
  Claim C6. The spatial distance matrix starts \<open>N \<times> N\<close> and all-infinite, and the first
  line of the file is the header. The builder either raises, on a row that does not parse or
  whose index is outside the matrix, or every row parses and it returns an \<open>N \<times> N\<close>
  matrix that is symmetric and whose every cell holds the distance of the last row that
  addresses it, in either direction, and infinity when no row does. In particular a row
  \<open>(start, end, d)\<close> that no later row overwrites leaves \<open>d\<close> in both \<open>[start][end]\<close> and
  \<open>[end][start]\<close> of the returned matrix. One step of the loop, on any \<open>N \<times> N\<close> matrix and a
  row that parses to \<open>(start, end, d)\<close>, sets these two cells to \<open>d\<close> and changes no other
  cell.
\<close>

theorem spatial_distance_matrix_symmetric:
  "(case spatial_distance_matrix int_of float_of N csv of
      Inl e \<Rightarrow> \<exists>line\<in>set (drop 1 csv). row_cells int_of float_of N line = None
    | Inr M \<Rightarrow> square N M \<and> symmetric N M \<and>
        (\<forall>line\<in>set (drop 1 csv). row_cells int_of float_of N line \<noteq> None) \<and>
        (\<forall>i<N. \<forall>j<N. M ! i ! j =
           (case last_write int_of float_of N (drop 1 csv) i j of
              None \<Rightarrow> Infinity | Some d \<Rightarrow> d)) \<and>
        (\<forall>pre line post a b d.
           drop 1 csv = pre @ line # post \<and>
           row_cells int_of float_of N line = Some (a, b, d) \<and>
           (\<forall>l\<in>set post. \<not> touches int_of float_of N l a b) \<longrightarrow>
           M ! a ! b = d \<and> M ! b ! a = d) \<and>
        (\<forall>i<N. \<forall>j<N. (\<forall>line\<in>set (drop 1 csv). \<not> touches int_of float_of N line i j) \<longrightarrow>
           M ! i ! j = Infinity)) \<and>
   (\<forall>m line a b d. square N m \<and> row_cells int_of float_of N line = Some (a, b, d) \<longrightarrow>
      spatial_row int_of float_of line m = Inr (set_both m a b d) \<and>
      set_both m a b d ! a ! b = d \<and> set_both m a b d ! b ! a = d \<and>
      (\<forall>i<N. \<forall>j<N. (i, j) \<noteq> (a, b) \<and> (i, j) \<noteq> (b, a) \<longrightarrow>
         set_both m a b d ! i ! j = m ! i ! j))"
proof (intro conjI allI impI)
  let ?m0 = "np_full N N Infinity"
  let ?rows = "drop 1 csv"
  have sq0: "square N ?m0" by (rule square_np_full)
  have sym0: "symmetric N ?m0" by (simp add: symmetric_def np_full_nth)
  note loop = spatial_loop [OF sq0, of ?rows int_of float_of]
  show "case spatial_distance_matrix int_of float_of N csv of
      Inl e \<Rightarrow> \<exists>line\<in>set (drop 1 csv). row_cells int_of float_of N line = None
    | Inr M \<Rightarrow> square N M \<and> symmetric N M \<and>
        (\<forall>line\<in>set (drop 1 csv). row_cells int_of float_of N line \<noteq> None) \<and>
        (\<forall>i<N. \<forall>j<N. M ! i ! j =
           (case last_write int_of float_of N (drop 1 csv) i j of
              None \<Rightarrow> Infinity | Some d \<Rightarrow> d)) \<and>
        (\<forall>pre line post a b d.
           drop 1 csv = pre @ line # post \<and>
           row_cells int_of float_of N line = Some (a, b, d) \<and>
           (\<forall>l\<in>set post. \<not> touches int_of float_of N l a b) \<longrightarrow>
           M ! a ! b = d \<and> M ! b ! a = d) \<and>
        (\<forall>i<N. \<forall>j<N. (\<forall>line\<in>set (drop 1 csv). \<not> touches int_of float_of N line i j) \<longrightarrow>
           M ! i ! j = Infinity)"
  proof (cases "spatial_distance_matrix int_of float_of N csv")
    case (Inl e)
    then show ?thesis using loop by (simp add: spatial_distance_matrix_def)
  next
    case (Inr M)
    then have r: "for_each ?rows (spatial_row int_of float_of) ?m0 = Inr M"
      by (simp add: spatial_distance_matrix_def)
    have l: "square N M" "symmetric N ?m0 \<longrightarrow> symmetric N M"
      "\<forall>line\<in>set ?rows. row_cells int_of float_of N line \<noteq> None"
      using loop unfolding r by simp_all
    have cell: "M ! i ! j =
        (case last_write int_of float_of N ?rows i j of None \<Rightarrow> Infinity | Some d \<Rightarrow> d)"
      if "i < N" "j < N" for i j
      using spatial_loop_cells [OF sq0 r that] np_full_nth [OF that, of Infinity]
      by (simp split: option.split)
    have last: "M ! a ! b = d \<and> M ! b ! a = d"
      if h: "?rows = pre @ line # post \<and> row_cells int_of float_of N line = Some (a, b, d) \<and>
          (\<forall>l\<in>set post. \<not> touches int_of float_of N l a b)" for pre line post a b d
    proof -
      from h have rc: "row_cells int_of float_of N line = Some (a, b, d)"
        and nt: "\<forall>l\<in>set post. \<not> touches int_of float_of N l a b"
        and sp: "?rows = pre @ line # post" by simp_all
      have ab: "a < N" "b < N" using spatial_row_Some(2,3) [OF sq0 rc] by simp_all
      have "last_write int_of float_of N ?rows a b = Some d"
        "last_write int_of float_of N ?rows b a = Some d"
        unfolding sp using rc nt by (rule last_write_row)+
      then show ?thesis using cell [OF ab] cell [OF ab(2,1)] by simp
    qed
    have inf: "M ! i ! j = Infinity"
      if "i < N" "j < N" "\<forall>line\<in>set ?rows. \<not> touches int_of float_of N line i j" for i j
      using cell [OF that(1,2)] last_write_None [OF that(3)] by simp
    show ?thesis
      unfolding Inr sum.case
    proof (intro conjI)
      show "square N M" by (rule l(1))
      show "symmetric N M" using l(2) sym0 by (rule mp)
      show "\<forall>line\<in>set ?rows. row_cells int_of float_of N line \<noteq> None" by (rule l(3))
      show "\<forall>i<N. \<forall>j<N. M ! i ! j =
           (case last_write int_of float_of N ?rows i j of None \<Rightarrow> Infinity | Some d \<Rightarrow> d)"
        by (intro allI impI) (rule cell)
      show "\<forall>pre line post a b d.
           ?rows = pre @ line # post \<and>
           row_cells int_of float_of N line = Some (a, b, d) \<and>
           (\<forall>l\<in>set post. \<not> touches int_of float_of N l a b) \<longrightarrow>
           M ! a ! b = d \<and> M ! b ! a = d"
        by (intro allI impI) (rule last)
      show "\<forall>i<N. \<forall>j<N. (\<forall>line\<in>set ?rows. \<not> touches int_of float_of N line i j) \<longrightarrow>
           M ! i ! j = Infinity"
        by (intro allI impI) (rule inf)
    qed
  qed
next
  fix m :: "dist matrix" and line a b d
  assume h: "square N m \<and> row_cells int_of float_of N line = Some (a, b, d)"
  then have sq: "square N m" and rc: "row_cells int_of float_of N line = Some (a, b, d)"
    by simp_all
  show "spatial_row int_of float_of line m = Inr (set_both m a b d)"
    using sq rc by (rule spatial_row_Some(1))
  have ab: "a < N" "b < N" using spatial_row_Some(2,3) [OF sq rc] by simp_all
  show "set_both m a b d ! a ! b = d"
    using set_both_nth [OF sq ab ab, of d] by simp
  show "set_both m a b d ! b ! a = d"
    using set_both_nth [OF sq ab ab(2,1), of d] by simp
  fix i j assume "i < N" "j < N" and ne: "(i, j) \<noteq> (a, b) \<and> (i, j) \<noteq> (b, a)"
  then have "set_both m a b d ! i ! j =
      (if (i, j) = (a, b) \<or> (i, j) = (b, a) then d else m ! i ! j)"
    using sq ab by (intro set_both_nth)
  also have "\<dots> = m ! i ! j" using ne by (intro if_not_P) blast
  finally show "set_both m a b d ! i ! j = m ! i ! j" .
qed

text \<open>
  Claim C6 on an edge list of three rows over three nodes, the third of which overwrites the
  distance of the first in the opposite direction.
\<close>

theorem spatial_distance_matrix_symmetric_witness:
  "spatial_distance_matrix demo_int demo_float 3 demo_file =
     Inr [[Infinity, Finite 2, Infinity],
          [Finite 2, Infinity, Finite 3],
          [Infinity, Finite 3, Infinity]] \<and>
   symmetric 3 [[Infinity, Finite 2, Infinity],
          [Finite 2, Infinity, Finite 3],
          [Infinity, Finite 3, Infinity]] \<and>
   last_write demo_int demo_float 3 (drop 1 demo_file) 0 1 = Some (Finite 2) \<and>
   last_write demo_int demo_float 3 (drop 1 demo_file) 1 2 = Some (Finite 3) \<and>
   last_write demo_int demo_float 3 (drop 1 demo_file) 0 2 = None"
proof -
  let ?M = "[[Infinity, Finite 2, Infinity],
          [Finite 2, Infinity, Finite 3],
          [Infinity, Finite 3, Infinity]]"
  have rc: "row_cells demo_int demo_float 3 [''0'', ''1'', ''7.5''] = Some (0, 1, Finite (15 / 2))"
    "row_cells demo_int demo_float 3 [''2'', ''1'', ''3''] = Some (2, 1, Finite 3)"
    "row_cells demo_int demo_float 3 [''1'', ''0'', ''2''] = Some (1, 0, Finite 2)"
    by (simp_all add: row_cells_def parsed_row_def py_item_def demo_int_def demo_float_def
        np_index_def)
  have lw: "last_write demo_int demo_float 3 (drop 1 demo_file) 0 1 = Some (Finite 2)"
    "last_write demo_int demo_float 3 (drop 1 demo_file) 1 2 = Some (Finite 3)"
    "last_write demo_int demo_float 3 (drop 1 demo_file) 0 2 = None"
    by (simp_all add: demo_file_def rc)
  have res: "spatial_distance_matrix demo_int demo_float 3 demo_file = Inr ?M"
    by (simp add: spatial_distance_matrix_def demo_file_def spatial_row_def py_item_def
        demo_int_def demo_float_def np_set_int_def np_index_def np_full_def
        numeral_3_eq_3)
  have "symmetric 3 ?M"
    using spatial_distance_matrix_symmetric
      [where int_of = demo_int and float_of = demo_float and N = 3 and csv = demo_file]
    unfolding res by simp
  then show ?thesis using res lw by (intro conjI)
qed

section \<open>The node subset\<close>

text \<open>
  Claim C8. Whatever permutation of the \<open>N\<close> node indices the generator draws: if
  \<open>N \<le> 100\<close> the subset is all \<open>N\<close> indices \<open>0, \<dots>, N - 1\<close>; if \<open>N > 100\<close> the subset
  consists of exactly 100 distinct indices, each from \<open>[0, N)\<close>. The selection never
  raises.
\<close>

theorem selected_nodes_subset:
  assumes "distinct permutation" and "set permutation = {0..<N}"
  shows "(N \<le> 100 \<longrightarrow> selected_nodes permutation N = Inr [0..<N]) \<and>
         (\<exists>S. selected_nodes permutation N = Inr S \<and> distinct S \<and> set S \<subseteq> {0..<N} \<and>
            (N \<le> 100 \<longrightarrow> set S = {0..<N} \<and> length S = N) \<and>
            (N > 100 \<longrightarrow> length S = 100))"
proof (cases "N \<le> 100")
  case True
  then show ?thesis by (simp add: selected_nodes_def np_arange_def)
next
  case False
  have len: "length permutation = N"
    using assms distinct_card [of permutation] by simp
  have "selected_nodes permutation N = Inr (take 100 permutation)"
    using False by (simp add: selected_nodes_def np_random_choice_def)
  moreover have "distinct (take 100 permutation)" using assms(1) by (rule distinct_take)
  moreover have "set (take 100 permutation) \<subseteq> {0..<N}"
    using set_take_subset [of 100 permutation] assms(2) by simp
  moreover have "length (take 100 permutation) = 100" using len False by simp
  ultimately show ?thesis using False by simp
qed

text \<open>Claim C8 on 101 nodes with the reversed order as the drawn permutation, and on 3
  nodes.\<close>

theorem selected_nodes_subset_witness:
  "distinct (rev [0..<101]) \<and> set (rev [0..<101]) = {0..<101} \<and>
   selected_nodes (rev [0..<101]) 101 = Inr (rev [1..<101]) \<and>
   length (rev [1..<101]) = 100 \<and>
   selected_nodes (rev [0..<3]) 3 = Inr [0, 1, 2]"
proof -
  have a: "distinct (rev [0..<101])" "set (rev [0..<101]) = {0..<101}" by simp_all
  have b: "distinct (rev [0..<3])" "set (rev [0..<3]) = {0..<3}" by simp_all
  have "take 100 (rev [0..<101]) = rev (drop 1 [0..<101])"
    by (simp add: take_rev)
  also have "\<dots> = rev [1..<101]" by (simp add: drop_upt)
  finally have t: "take 100 (rev [0..<101]) = rev [1..<101]" .
  have "selected_nodes (rev [0..<101]) 101 = Inr (rev [1..<101])"
    using selected_nodes_subset [OF a] t
    by (simp add: selected_nodes_def np_random_choice_def)
  moreover have "selected_nodes (rev [0..<3]) 3 = Inr [0, 1, 2]"
    using selected_nodes_subset [OF b] by (simp add: upt_rec)
  ultimately show ?thesis using a by simp
qed

section \<open>The two similarity matrices are equal\<close>

lemma np_sub_same_length:
  "length a = length b \<Longrightarrow> np_sub a b = Inr (map2 (-) a b)"
  by (simp add: np_sub_def)

lemma sum_list_nth: "sum_list xs = (\<Sum>k<length xs. xs ! k)"
  by (simp add: sum_list_sum_nth atLeast0LessThan)

lemma linalg_norm_diff:
  assumes "length a = length b"
  shows "linalg_norm (map2 (-) a b) = euclidean_distance a b"
proof -
  have "sum_list (map (\<lambda>x. x * x) (map2 (-) a b)) = (\<Sum>k<length a. (a ! k - b ! k)\<^sup>2)"
    using assms by (subst sum_list_nth) (simp add: power2_eq_square)
  then show ?thesis by (simp add: linalg_norm_def euclidean_distance_def)
qed

lemma embedding_distance_Some:
  assumes "E i = Some a" "E j = Some b" "length a = length b"
  shows "embedding_distance E i j = Inr (euclidean_distance a b)"
  using assms
  by (simp add: embedding_distance_def dict_get_def np_sub_same_length linalg_norm_diff)

text \<open>The loop nest writes the same cell of both matrices from the same value.\<close>

lemma similarity_pair_step:
  "similarity_body E i j (m, m) = bind (similarity_step E (i, j) m) (\<lambda>m'. Inr (m', m'))"
proof (cases "i \<noteq> j \<and> E i \<noteq> None \<and> E j \<noteq> None")
  case False
  then show ?thesis by (auto simp: similarity_step_def)
next
  case True
  show ?thesis
  proof (cases "embedding_distance E i j")
    case (Inl e)
    then show ?thesis using True by (simp add: similarity_step_def)
  next
    case (Inr v)
    then show ?thesis using True
      by (cases "np_set m i j v") (simp_all add: similarity_step_def)
  qed
qed

lemma similarity_pair_loop:
  "for_each ps (\<lambda>(i, j). similarity_body E i j) (m, m) =
   bind (for_each ps (similarity_step E) m) (\<lambda>m'. Inr (m', m'))"
proof (induction ps arbitrary: m)
  case Nil
  then show ?case by simp
next
  case (Cons p ps)
  obtain i j where p: "p = (i, j)" by (cases p)
  have step: "for_each (p # ps) (\<lambda>(i, j). similarity_body E i j) (m, m) =
      bind (bind (similarity_step E (i, j) m) (\<lambda>m'. Inr (m', m')))
        (for_each ps (\<lambda>(i, j). similarity_body E i j))"
    unfolding p by (simp only: for_each.simps prod.case similarity_pair_step)
  show ?case
  proof (cases "similarity_step E (i, j) m")
    case (Inl e)
    then show ?thesis unfolding step by (simp add: p)
  next
    case (Inr m1)
    then show ?thesis unfolding step by (simp add: p Cons.IH)
  qed
qed

lemma similarity_matrices_single:
  "similarity_matrices N S E =
     bind (for_each (index_pairs S (\<lambda>i. S)) (similarity_step E) (np_zeros N N))
       (\<lambda>m'. Inr (m', m'))"
  unfolding similarity_matrices_def
  by (simp only: for_each_nest similarity_pair_loop)

lemma matrix3:
  assumes "square 3 M"
  shows "M = [[M ! 0 ! 0, M ! 0 ! 1, M ! 0 ! 2],
              [M ! 1 ! 0, M ! 1 ! 1, M ! 1 ! 2],
              [M ! 2 ! 0, M ! 2 ! 1, M ! 2 ! 2]]"
proof -
  have r: "r = [r ! 0, r ! 1, r ! 2]" if "length r = 3" for r :: "'b list"
    using that
    by (intro nth_equalityI) (auto simp: nth_Cons' less_Suc_eq numeral_3_eq_3 numeral_2_eq_2)
  have rows: "length M = 3" "length (M ! 0) = 3" "length (M ! 1) = 3" "length (M ! 2) = 3"
    using assms by (simp_all add: square_def list_all_iff)
  have "M = [M ! 0, M ! 1, M ! 2]" using rows(1) by (rule r)
  moreover have "M ! 0 = [M ! 0 ! 0, M ! 0 ! 1, M ! 0 ! 2]" using rows(2) by (rule r)
  moreover have "M ! 1 = [M ! 1 ! 0, M ! 1 ! 1, M ! 1 ! 2]" using rows(3) by (rule r)
  moreover have "M ! 2 = [M ! 2 ! 0, M ! 2 ! 1, M ! 2 ! 2]" using rows(4) by (rule r)
  ultimately show ?thesis by metis
qed

text \<open>
  Claim C1. Whenever the derivation step returns, its two matrices are equal. When the
  sampled nodes are indices below \<open>N\<close> and the embeddings have one length, it returns
  two equal \<open>N \<times> N\<close> matrices whose cell \<open>(i, j)\<close> is the Euclidean norm of the
  difference of the embeddings of \<open>i\<close> and \<open>j\<close> when \<open>i\<close> and \<open>j\<close> are distinct sampled
  nodes that both have an embedding, and 0 in every other cell.
\<close>

theorem similarity_matrices_equal:
  "(\<forall>dtw_matrix sp_matrix.
      similarity_matrices N S E = Inr (dtw_matrix, sp_matrix) \<longrightarrow> dtw_matrix = sp_matrix) \<and>
   ((\<forall>i\<in>set S. i < N) \<and> (\<forall>i j a b. E i = Some a \<and> E j = Some b \<longrightarrow> length a = length b) \<longrightarrow>
      (\<exists>M. similarity_matrices N S E = Inr (M, M) \<and> square N M \<and>
         (\<forall>i<N. \<forall>j<N. M ! i ! j =
            (if i \<in> set S \<and> j \<in> set S \<and> i \<noteq> j \<and> E i \<noteq> None \<and> E j \<noteq> None
             then euclidean_distance (the (E i)) (the (E j)) else 0))))"
proof (intro conjI allI impI)
  fix dtw_matrix sp_matrix
  assume "similarity_matrices N S E = Inr (dtw_matrix, sp_matrix)"
  then show "dtw_matrix = sp_matrix"
    unfolding similarity_matrices_single
    by (cases "for_each (index_pairs S (\<lambda>i. S)) (similarity_step E) (np_zeros N N)") simp_all
next
  assume h: "(\<forall>i\<in>set S. i < N) \<and>
    (\<forall>i j a b. E i = Some a \<and> E j = Some b \<longrightarrow> length a = length b)"
  let ?ps = "index_pairs S (\<lambda>i. S)"
  let ?c = "\<lambda>p. fst p \<noteq> snd p \<and> E (fst p) \<noteq> None \<and> E (snd p) \<noteq> None"
  let ?v = "\<lambda>p. euclidean_distance (the (E (fst p))) (the (E (snd p)))"
  have sq0: "square N (np_zeros N N)" by (simp add: np_zeros_def square_np_full)
  have rng: "fst p < N \<and> snd p < N" if "p \<in> set ?ps" for p
    using that h by (auto simp: set_index_pairs)
  have body: "similarity_step E p m = (if ?c p then np_set m (fst p) (snd p) (?v p) else Inr m)"
    for p m
  proof (cases "?c p")
    case False
    then show ?thesis unfolding similarity_step_def by (simp only: if_False)
  next
    case True
    then obtain a b where ab: "E (fst p) = Some a" "E (snd p) = Some b" by auto
    then have "length a = length b" using h by blast
    then have "embedding_distance E (fst p) (snd p) = Inr (euclidean_distance a b)"
      using ab by (intro embedding_distance_Some)
    then show ?thesis
      unfolding similarity_step_def using True ab by (simp only: if_True bind_Inr option.sel)
  qed
  obtain M where M: "for_each ?ps (similarity_step E) (np_zeros N N) = Inr M" "square N M"
    "\<forall>a<N. \<forall>b<N. M ! a ! b =
       (if (a, b) \<in> set ?ps \<and> ?c (a, b) then ?v (a, b) else np_zeros N N ! a ! b)"
    using for_each_writes [OF sq0, of ?ps ?c "similarity_step E" ?v] rng body by blast
  have cell: "M ! i ! j =
      (if i \<in> set S \<and> j \<in> set S \<and> i \<noteq> j \<and> E i \<noteq> None \<and> E j \<noteq> None
       then euclidean_distance (the (E i)) (the (E j)) else 0)" if "i < N" "j < N" for i j
  proof -
    have "M ! i ! j = (if (i, j) \<in> set ?ps \<and> ?c (i, j) then ?v (i, j) else np_zeros N N ! i ! j)"
      using M(3) that by blast
    moreover have "np_zeros N N ! i ! j = 0"
      using that by (simp add: np_zeros_def np_full_nth)
    moreover have "(i, j) \<in> set ?ps \<longleftrightarrow> i \<in> set S \<and> j \<in> set S"
      by (simp add: set_index_pairs)
    ultimately show ?thesis by (simp only: fst_conv snd_conv conj_assoc)
  qed
  have "similarity_matrices N S E = Inr (M, M)"
    unfolding similarity_matrices_single M(1) by simp
  then show "\<exists>M. similarity_matrices N S E = Inr (M, M) \<and> square N M \<and>
         (\<forall>i<N. \<forall>j<N. M ! i ! j =
            (if i \<in> set S \<and> j \<in> set S \<and> i \<noteq> j \<and> E i \<noteq> None \<and> E j \<noteq> None
             then euclidean_distance (the (E i)) (the (E j)) else 0))"
    using M(2) cell by blast
qed

text \<open>Claim C1 on three sampled nodes, one of them without an embedding.\<close>

theorem similarity_matrices_equal_witness:
  "similarity_matrices 3 [0, 1, 2] E3 =
     Inr ([[0, 5, 0], [5, 0, 0], [0, 0, 0]], [[0, 5, 0], [5, 0, 0], [0, 0, 0]])"
proof -
  have S: "\<forall>i\<in>set [0, 1, 2 :: nat]. i < 3" by simp
  have len: "\<forall>i j a b. E3 i = Some a \<and> E3 j = Some b \<longrightarrow> length a = length b"
    by (auto simp: E3_def split: if_splits)
  obtain M where M: "similarity_matrices 3 [0, 1, 2] E3 = Inr (M, M)" "square 3 M"
    "\<forall>i<3. \<forall>j<3. M ! i ! j =
       (if i \<in> set [0, 1, 2 :: nat] \<and> j \<in> set [0, 1, 2 :: nat] \<and> i \<noteq> j \<and>
           E3 i \<noteq> None \<and> E3 j \<noteq> None
        then euclidean_distance (the (E3 i)) (the (E3 j)) else 0)"
    using similarity_matrices_equal [of 3 "[0, 1, 2]" E3] S len by blast
  have "sqrt 25 = 5" using real_sqrt_abs2 [of 5] by simp
  then have d: "euclidean_distance [0, 0] [3, 4] = 5" "euclidean_distance [3, 4] [0, 0] = 5"
    by (simp_all add: euclidean_distance_def numeral_2_eq_2)
  have c: "M ! 0 ! 0 = 0" "M ! 0 ! 1 = 5" "M ! 0 ! 2 = 0"
    "M ! 1 ! 0 = 5" "M ! 1 ! 1 = 0" "M ! 1 ! 2 = 0"
    "M ! 2 ! 0 = 0" "M ! 2 ! 1 = 0" "M ! 2 ! 2 = 0"
    using M(3) d by (simp_all add: E3_def)
  have "M = [[0, 5, 0], [5, 0, 0], [0, 0, 0]]"
    using matrix3 [OF M(2)] c by simp
  then show ?thesis using M(1) by simp
qed

section \<open>The constructed graph\<close>

lemma graph_loop_fold:
  assumes "square N D" and "\<And>i j. (i, j) \<in> set ps \<Longrightarrow> i < N \<and> j < N"
  shows "for_each ps (\<lambda>(i, j) G. bind (np_get D i j) (\<lambda>d.
            if d \<noteq> Infinity then Inr (add_edge G i j d) else Inr G)) G =
         Inr (fold (graph_step D) ps G)"
  using assms(2)
proof (induction ps arbitrary: G)
  case Nil
  then show ?case by simp
next
  case (Cons p ps)
  obtain i j where p: "p = (i, j)" by (cases p)
  have ij: "i < N" "j < N" using Cons.prems [of i j] p by simp_all
  have g: "np_get D i j = Inr (D ! i ! j)" using assms(1) ij by (rule np_get_square)
  have "(\<lambda>(i, j) G. bind (np_get D i j) (\<lambda>d.
            if d \<noteq> Infinity then Inr (add_edge G i j d) else Inr G)) p G =
        Inr (graph_step D p G)"
    unfolding p by (simp add: g graph_step_def)
  moreover have "\<And>i j. (i, j) \<in> set ps \<Longrightarrow> i < N \<and> j < N"
    by (rule Cons.prems) simp
  from Cons.IH [OF this, of "graph_step D p G"]
  have "for_each ps (\<lambda>(i, j) G. bind (np_get D i j) (\<lambda>d.
            if d \<noteq> Infinity then Inr (add_edge G i j d) else Inr G)) (graph_step D p G) =
         Inr (fold (graph_step D) ps (graph_step D p G))" .
  ultimately show ?case by simp
qed

lemma has_edge_add_edge:
  "has_edge (add_edge G i j w) u v \<longleftrightarrow> has_edge G u v \<or> (u, v) = (i, j) \<or> (u, v) = (j, i)"
  by (auto simp: has_edge_def add_edge_def)

lemma has_edge_graph_step:
  "has_edge (graph_step D p G) u v \<longleftrightarrow>
     has_edge G u v \<or> (D ! fst p ! snd p \<noteq> Infinity \<and> ((u, v) = p \<or> (v, u) = p))"
proof (cases p)
  case (Pair i j)
  then show ?thesis
    by (cases "D ! i ! j = Infinity") (auto simp: graph_step_def has_edge_add_edge)
qed

lemma has_edge_fold:
  "has_edge (fold (graph_step D) ps G) u v \<longleftrightarrow>
     has_edge G u v \<or> ((u, v) \<in> set ps \<and> D ! u ! v \<noteq> Infinity) \<or>
     ((v, u) \<in> set ps \<and> D ! v ! u \<noteq> Infinity)"
proof (induction ps arbitrary: G)
  case Nil
  then show ?case by simp
next
  case (Cons p ps)
  have "has_edge (fold (graph_step D) (p # ps) G) u v \<longleftrightarrow>
      has_edge (graph_step D p G) u v \<or> ((u, v) \<in> set ps \<and> D ! u ! v \<noteq> Infinity) \<or>
      ((v, u) \<in> set ps \<and> D ! v ! u \<noteq> Infinity)"
    using Cons.IH [of "graph_step D p G"] by simp
  also have "\<dots> \<longleftrightarrow> has_edge G u v \<or> ((u, v) \<in> set (p # ps) \<and> D ! u ! v \<noteq> Infinity) \<or>
      ((v, u) \<in> set (p # ps) \<and> D ! v ! u \<noteq> Infinity)"
    unfolding has_edge_graph_step by (cases p) auto
  finally show ?case .
qed

lemma adj_add_edge:
  "adj (add_edge G i j w) (u, v) =
     (if (u, v) = (i, j) \<or> (u, v) = (j, i) then Some w else adj G (u, v))"
  by (cases "u = i"; cases "v = j"; cases "u = j"; cases "v = i"; simp add: add_edge_def)

lemma adj_graph_step_eq:
  "adj (graph_step D p G) (u, v) =
     (if D ! fst p ! snd p \<noteq> Infinity \<and> ((u, v) = p \<or> (v, u) = p)
      then Some (D ! fst p ! snd p) else adj G (u, v))"
proof (cases p)
  case (Pair i j)
  show ?thesis
    unfolding Pair graph_step_def
    by (cases "D ! i ! j = Infinity") (simp_all add: adj_add_edge)
qed

lemma adj_graph_step:
  assumes "adj (graph_step D p G) (u, v) = Some w"
  shows "adj G (u, v) = Some w \<or>
     (w \<noteq> Infinity \<and> ((u, v) = p \<and> w = D ! u ! v \<or> (v, u) = p \<and> w = D ! v ! u))"
proof (cases "D ! fst p ! snd p \<noteq> Infinity \<and> ((u, v) = p \<or> (v, u) = p)")
  case True
  have "adj (graph_step D p G) (u, v) = Some (D ! fst p ! snd p)"
    unfolding adj_graph_step_eq using True by (rule if_P)
  then have "w = D ! fst p ! snd p" using assms by simp
  then show ?thesis using True by (cases p) auto
next
  case False
  have "adj (graph_step D p G) (u, v) = adj G (u, v)"
    unfolding adj_graph_step_eq using False by (rule if_not_P)
  then have "adj G (u, v) = Some w" using assms by simp
  then show ?thesis by simp
qed

lemma adj_fold:
  "adj (fold (graph_step D) ps G) (u, v) = Some w \<Longrightarrow>
     adj G (u, v) = Some w \<or>
     (w \<noteq> Infinity \<and> ((u, v) \<in> set ps \<and> w = D ! u ! v \<or> (v, u) \<in> set ps \<and> w = D ! v ! u))"
proof (induction ps arbitrary: G)
  case Nil
  then show ?case by simp
next
  case (Cons p ps)
  from Cons.prems have "adj (fold (graph_step D) ps (graph_step D p G)) (u, v) = Some w"
    by simp
  from Cons.IH [OF this] have "adj (graph_step D p G) (u, v) = Some w \<or>
     (w \<noteq> Infinity \<and> ((u, v) \<in> set ps \<and> w = D ! u ! v \<or> (v, u) \<in> set ps \<and> w = D ! v ! u))" .
  then show ?case
  proof
    assume "adj (graph_step D p G) (u, v) = Some w"
    from adj_graph_step [OF this] show ?thesis by auto
  next
    assume "w \<noteq> Infinity \<and> ((u, v) \<in> set ps \<and> w = D ! u ! v \<or> (v, u) \<in> set ps \<and> w = D ! v ! u)"
    then show ?thesis by auto
  qed
qed

lemma adj_sym_graph_step:
  assumes "\<And>u v. adj G (u, v) = adj G (v, u)"
  shows "adj (graph_step D p G) (u, v) = adj (graph_step D p G) (v, u)"
proof -
  have "((u, v) = p \<or> (v, u) = p) = ((v, u) = p \<or> (u, v) = p)" by blast
  then show ?thesis unfolding adj_graph_step_eq using assms [of u v] by simp
qed

lemma adj_sym_fold:
  assumes "\<And>u v. adj G (u, v) = adj G (v, u)"
  shows "adj (fold (graph_step D) ps G) (u, v) = adj (fold (graph_step D) ps G) (v, u)"
  using assms
proof (induction ps arbitrary: G)
  case Nil
  then show ?case by simp
next
  case (Cons p ps)
  have "\<And>u v. adj (graph_step D p G) (u, v) = adj (graph_step D p G) (v, u)"
    using Cons.prems by (rule adj_sym_graph_step)
  from Cons.IH [OF this] show ?case by simp
qed

lemma nodes_graph_step:
  assumes "nodes G = {u. \<exists>v. has_edge G u v}"
  shows "nodes (graph_step D p G) = {u. \<exists>v. has_edge (graph_step D p G) u v}"
proof (cases "D ! fst p ! snd p = Infinity")
  case True
  then show ?thesis using assms by (simp add: graph_step_def)
next
  case False
  have "nodes (graph_step D p G) = insert (snd p) (insert (fst p) (nodes G))"
    using False by (simp add: graph_step_def add_edge_def)
  moreover have "{u. \<exists>v. has_edge (graph_step D p G) u v} =
      insert (snd p) (insert (fst p) {u. \<exists>v. has_edge G u v})"
    using False unfolding has_edge_graph_step by (cases p) auto
  ultimately show ?thesis using assms by simp
qed

lemma nodes_fold:
  assumes "nodes G = {u. \<exists>v. has_edge G u v}"
  shows "nodes (fold (graph_step D) ps G) = {u. \<exists>v. has_edge (fold (graph_step D) ps G) u v}"
  using assms
proof (induction ps arbitrary: G)
  case Nil
  then show ?case by simp
next
  case (Cons p ps)
  from Cons.IH [OF nodes_graph_step [OF Cons.prems]] show ?case by simp
qed

lemma generate_graph_fold:
  assumes "square N D" and "\<forall>i\<in>set S. i < N"
  shows "generate_graph N D S = Inr (fold (graph_step D) (index_pairs S (\<lambda>i. S)) empty_graph)"
proof -
  have "generate_graph N D S =
      for_each (index_pairs S (\<lambda>i. S)) (\<lambda>(i, j) G. bind (np_get D i j) (\<lambda>d.
            if d \<noteq> Infinity then Inr (add_edge G i j d) else Inr G)) empty_graph"
    unfolding generate_graph_def by (rule for_each_nest)
  also have "\<dots> = Inr (fold (graph_step D) (index_pairs S (\<lambda>i. S)) empty_graph)"
    using assms(1)
  proof (rule graph_loop_fold)
    fix i j assume "(i, j) \<in> set (index_pairs S (\<lambda>i. S))"
    then show "i < N \<and> j < N" using assms(2) by (simp add: set_index_pairs)
  qed
  finally show ?thesis .
qed

lemma no_path_between:
  assumes "\<And>u v. has_edge G u v \<Longrightarrow> u \<in> A \<Longrightarrow> v \<in> A"
    and "(u, v) \<in> path_between G" and "u \<in> A"
  shows "v \<in> A"
  using assms(2,3) unfolding path_between_def
  by (induction rule: rtrancl_induct) (auto intro: assms(1))

lemma four_node_edges:
  fixes G :: graph and L :: "nat set"
  assumes he: "\<And>u v. has_edge G u v \<longleftrightarrow>
      (u, v) \<in> {(0, 1), (1, 0), (2, 3), (3, 2)} \<or> (u = v \<and> u \<in> L)"
    and L: "L \<subseteq> {0, 1, 2, 3}"
  shows "edges G = {{0, 1}, {2, 3}} \<union> (\<lambda>i. {i}) ` L"
    and "card (edges G) = 2 + card L"
    and "\<forall>u\<in>{0, 1}. \<forall>v\<in>{2, 3}. (u, v) \<notin> path_between G \<and> (v, u) \<notin> path_between G"
proof -
  have "dom (adj G) = {(0, 1), (1, 0), (2, 3), (3, 2)} \<union> (\<lambda>i. (i, i)) ` L"
  proof (rule set_eqI)
    fix p :: "nat \<times> nat"
    obtain u v where p: "p = (u, v)" by (cases p)
    have "p \<in> dom (adj G) \<longleftrightarrow> has_edge G u v"
      unfolding p by (simp add: has_edge_def dom_def)
    also have "\<dots> \<longleftrightarrow> (u, v) \<in> {(0, 1), (1, 0), (2, 3), (3, 2)} \<or> (u = v \<and> u \<in> L)"
      by (rule he)
    also have "\<dots> \<longleftrightarrow> p \<in> {(0, 1), (1, 0), (2, 3), (3, 2)} \<union> (\<lambda>i. (i, i)) ` L"
      unfolding p by auto
    finally show "p \<in> dom (adj G) \<longleftrightarrow>
        p \<in> {(0, 1), (1, 0), (2, 3), (3, 2)} \<union> (\<lambda>i. (i, i)) ` L" .
  qed
  then have "edges G = {{0, 1}, {1, 0}, {2, 3}, {3, 2}} \<union> (\<lambda>i. {i}) ` L"
    by (simp add: edges_def image_Un image_image)
  also have "{{0, 1}, {1, 0}, {2, 3}, {3, 2}} = {{0, 1}, {2, 3 :: nat}}"
    by (simp add: insert_commute)
  finally show e: "edges G = {{0, 1}, {2, 3}} \<union> (\<lambda>i. {i}) ` L" .
  have fin: "finite L" using L by (rule finite_subset) simp
  have two: "card {{0, 1}, {2, 3 :: nat}} = 2" by (simp add: doubleton_eq_iff)
  have disj: "{{0, 1}, {2, 3 :: nat}} \<inter> (\<lambda>i. {i}) ` L = {}"
    by (auto simp: doubleton_eq_iff)
  have "card ((\<lambda>i. {i}) ` L) = card L"
    by (rule card_image) (simp add: inj_on_def)
  then show "card (edges G) = 2 + card L"
    unfolding e using card_Un_disjoint [OF _ _ disj] fin two by simp
  have closed01: "v \<in> {0, 1}" if "has_edge G u v" "u \<in> {0, 1}" for u v
    using that unfolding he by auto
  have closed23: "v \<in> {2, 3}" if "has_edge G u v" "u \<in> {2, 3}" for u v
    using that unfolding he by auto
  show "\<forall>u\<in>{0, 1}. \<forall>v\<in>{2, 3}. (u, v) \<notin> path_between G \<and> (v, u) \<notin> path_between G"
  proof (intro ballI conjI notI)
    fix u v :: nat assume uv: "u \<in> {0, 1}" "v \<in> {2, 3}"
    {
      assume "(u, v) \<in> path_between G"
      from no_path_between [of G "{0, 1}" u v, OF closed01 this uv(1)]
      have "v \<in> {0, 1}" .
      then show False using uv(2) by auto
    next
      assume "(v, u) \<in> path_between G"
      from no_path_between [of G "{2, 3}" v u, OF closed23 this uv(2)]
      have "u \<in> {2, 3}" .
      then show False using uv(1) by auto
    }
  qed
qed

lemma four_node_graph:
  assumes sq: "square 4 D"
    and off: "\<forall>i<4. \<forall>j<4. i \<noteq> j \<longrightarrow>
      (D ! i ! j \<noteq> Infinity) = ((i, j) \<in> {(0, 1), (1, 0), (2, 3), (3, 2)})"
  shows "\<exists>G. generate_graph 4 D [0, 1, 2, 3] = Inr G \<and>
     edges G = {{0, 1}, {2, 3}} \<union> (\<lambda>i. {i}) ` {i. i < 4 \<and> D ! i ! i \<noteq> Infinity} \<and>
     card (edges G) = 2 + card {i. i < 4 \<and> D ! i ! i \<noteq> Infinity} \<and>
     (\<forall>u\<in>{0, 1}. \<forall>v\<in>{2, 3}. (u, v) \<notin> path_between G \<and> (v, u) \<notin> path_between G)"
proof -
  let ?S = "[0, 1, 2, 3] :: nat list"
  let ?ps = "index_pairs ?S (\<lambda>i. ?S)"
  let ?G = "fold (graph_step D) ?ps empty_graph"
  let ?P = "{(0, 1), (1, 0), (2, 3), (3, 2)} :: (nat \<times> nat) set"
  let ?L = "{i. i < 4 \<and> D ! i ! i \<noteq> Infinity}"
  have S: "\<forall>i\<in>set ?S. i < 4" by simp
  have res: "generate_graph 4 D ?S = Inr ?G" using sq S by (rule generate_graph_fold)
  have inS: "u \<in> set ?S \<longleftrightarrow> u < 4" for u by auto
  have mem: "(u, v) \<in> set ?ps \<longleftrightarrow> u < 4 \<and> v < 4" for u v
    unfolding set_index_pairs inS by simp
  have e0: "\<not> has_edge empty_graph u v" for u v
    by (simp add: has_edge_def empty_graph_def)
  have edge: "has_edge ?G u v \<longleftrightarrow>
      u < 4 \<and> v < 4 \<and> (D ! u ! v \<noteq> Infinity \<or> D ! v ! u \<noteq> Infinity)" for u v
    unfolding has_edge_fold mem using e0 by blast
  have fin: "(D ! i ! j \<noteq> Infinity) = ((i, j) \<in> ?P)" if "i < 4" "j < 4" "i \<noteq> j" for i j
    using off that by blast
  have Psym: "(v, u) \<in> ?P \<longleftrightarrow> (u, v) \<in> ?P" for u v :: nat by auto
  have Plt: "(u, v) \<in> ?P \<Longrightarrow> u < 4 \<and> v < 4 \<and> u \<noteq> v" for u v :: nat by auto
  have he: "has_edge ?G u v \<longleftrightarrow> (u, v) \<in> ?P \<or> (u = v \<and> u \<in> ?L)" for u v
  proof (cases "u = v")
    case True
    have "(v, v) \<notin> ?P" by auto
    then show ?thesis unfolding edge True by auto
  next
    case False
    show ?thesis
    proof (cases "u < 4 \<and> v < 4")
      case True
      then have uv: "u < 4" "v < 4" by simp_all
      have vu: "v \<noteq> u" using False by simp
      show ?thesis
        unfolding edge fin [OF uv False] fin [OF uv(2,1) vu] Psym [of u v]
        using uv False by simp
    next
      case no: False
      then have "(u, v) \<notin> ?P" using Plt [of u v] by blast
      moreover have "\<not> has_edge ?G u v" unfolding edge using no by blast
      ultimately show ?thesis using False by blast
    qed
  qed
  have L: "?L \<subseteq> {0, 1, 2, 3}" by auto
  note four = four_node_edges [of ?G ?L, OF he L]
  show ?thesis
    using res four by (intro exI [of _ ?G] conjI)
qed

text \<open>
  Claim C7, as the code has it. For a distance matrix of \<open>N\<close> nodes and sampled nodes
  below \<open>N\<close>, \<^verbatim>\<open>generate_graph\<close> returns an undirected weighted graph: the nodes
  \<open>u\<close> and \<open>v\<close> are joined exactly when both are sampled and the matrix holds a finite
  distance for the pair, in one order or the other; the weight is stored under both orders
  and is such a finite entry, the entry \<open>D[u][v]\<close> itself when the matrix is symmetric; a
  finite diagonal entry of a sampled node gives a self-loop, since \<open>i = j\<close> is not
  filtered; and the nodes of the graph are the end points of its edges. For four nodes
  whose only finite distances off the diagonal are between 0 and 1 and between 2 and 3,
  the edges of the graph are \<open>{0, 1}\<close>, \<open>{2, 3}\<close> and one self-loop for every finite
  diagonal entry; so the graph has exactly two edges if and only if the whole diagonal is
  infinite; and in every case no path joins \<open>{0, 1}\<close> and \<open>{2, 3}\<close>.
\<close>

theorem generate_graph_edges:
  assumes "square N D" and "\<forall>i\<in>set S. i < N"
  shows "\<exists>G. generate_graph N D S = Inr G \<and>
     (\<forall>u v. has_edge G u v \<longleftrightarrow>
        u \<in> set S \<and> v \<in> set S \<and> (D ! u ! v \<noteq> Infinity \<or> D ! v ! u \<noteq> Infinity)) \<and>
     (\<forall>u v. has_edge G u v \<longrightarrow>
        adj G (u, v) = adj G (v, u) \<and> adj G (u, v) \<noteq> Some Infinity \<and>
        (adj G (u, v) = Some (D ! u ! v) \<or> adj G (u, v) = Some (D ! v ! u))) \<and>
     (symmetric N D \<longrightarrow> (\<forall>u v. has_edge G u v \<longrightarrow> adj G (u, v) = Some (D ! u ! v))) \<and>
     (\<forall>u\<in>set S. D ! u ! u \<noteq> Infinity \<longrightarrow> has_edge G u u) \<and>
     nodes G = {u. \<exists>v. has_edge G u v} \<and>
     (N = 4 \<and> S = [0, 1, 2, 3] \<and>
      (\<forall>i<4. \<forall>j<4. i \<noteq> j \<longrightarrow>
         (D ! i ! j \<noteq> Infinity) = ((i, j) \<in> {(0, 1), (1, 0), (2, 3), (3, 2)})) \<longrightarrow>
        edges G = {{0, 1}, {2, 3}} \<union> (\<lambda>i. {i}) ` {i. i < 4 \<and> D ! i ! i \<noteq> Infinity} \<and>
        card (edges G) = 2 + card {i. i < 4 \<and> D ! i ! i \<noteq> Infinity} \<and>
        (card (edges G) = 2 \<longleftrightarrow> (\<forall>i<4. D ! i ! i = Infinity)) \<and>
        (\<forall>u\<in>{0, 1}. \<forall>v\<in>{2, 3}. (u, v) \<notin> path_between G \<and> (v, u) \<notin> path_between G))"
proof -
  let ?ps = "index_pairs S (\<lambda>i. S)"
  let ?G = "fold (graph_step D) ?ps empty_graph"
  have res: "generate_graph N D S = Inr ?G" using assms by (rule generate_graph_fold)
  have mem: "(u, v) \<in> set ?ps \<longleftrightarrow> u \<in> set S \<and> v \<in> set S" for u v
    by (simp add: set_index_pairs)
  have e0: "\<not> has_edge empty_graph u v" for u v
    by (simp add: has_edge_def empty_graph_def)
  have edge: "has_edge ?G u v \<longleftrightarrow>
      u \<in> set S \<and> v \<in> set S \<and> (D ! u ! v \<noteq> Infinity \<or> D ! v ! u \<noteq> Infinity)" for u v
    unfolding has_edge_fold mem using e0 by blast
  have sym: "adj ?G (u, v) = adj ?G (v, u)" for u v
    by (rule adj_sym_fold) (simp add: empty_graph_def)
  have weight: "adj ?G (u, v) \<noteq> Some Infinity \<and>
      (adj ?G (u, v) = Some (D ! u ! v) \<or> adj ?G (u, v) = Some (D ! v ! u))"
    if "has_edge ?G u v" for u v
  proof -
    from that obtain w where w: "adj ?G (u, v) = Some w" by (auto simp: has_edge_def)
    from adj_fold [OF this] have "w \<noteq> Infinity \<and> (w = D ! u ! v \<or> w = D ! v ! u)"
      by (auto simp: empty_graph_def)
    then show ?thesis using w by auto
  qed
  have wsym: "adj ?G (u, v) = Some (D ! u ! v)" if "symmetric N D" "has_edge ?G u v" for u v
  proof -
    have "u < N" "v < N" using that(2) assms(2) unfolding edge by auto
    then have "D ! u ! v = D ! v ! u" using that(1) by (simp add: symmetric_def)
    then show ?thesis using weight [OF that(2)] by auto
  qed
  have loop: "has_edge ?G u u" if "u \<in> set S" "D ! u ! u \<noteq> Infinity" for u
    unfolding edge using that by simp
  have nodes: "nodes ?G = {u. \<exists>v. has_edge ?G u v}"
    by (rule nodes_fold) (simp add: empty_graph_def has_edge_def)
  have example: "edges ?G = {{0, 1}, {2, 3}} \<union> (\<lambda>i. {i}) ` {i. i < 4 \<and> D ! i ! i \<noteq> Infinity} \<and>
        card (edges ?G) = 2 + card {i. i < 4 \<and> D ! i ! i \<noteq> Infinity} \<and>
        (card (edges ?G) = 2 \<longleftrightarrow> (\<forall>i<4. D ! i ! i = Infinity)) \<and>
        (\<forall>u\<in>{0, 1}. \<forall>v\<in>{2, 3}. (u, v) \<notin> path_between ?G \<and> (v, u) \<notin> path_between ?G)"
    if h: "N = 4 \<and> S = [0, 1, 2, 3] \<and>
      (\<forall>i<4. \<forall>j<4. i \<noteq> j \<longrightarrow>
         (D ! i ! j \<noteq> Infinity) = ((i, j) \<in> {(0, 1), (1, 0), (2, 3), (3, 2)}))"
  proof -
    let ?L = "{i. i < 4 \<and> D ! i ! i \<noteq> Infinity}"
    from h have N: "N = 4" and S: "S = [0, 1, 2, 3]"
      and off: "\<forall>i<4. \<forall>j<4. i \<noteq> j \<longrightarrow>
         (D ! i ! j \<noteq> Infinity) = ((i, j) \<in> {(0, 1), (1, 0), (2, 3), (3, 2)})"
      by simp_all
    have sq: "square 4 D" using assms(1) unfolding N .
    from four_node_graph [OF sq off]
    obtain G' where G': "generate_graph 4 D [0, 1, 2, 3] = Inr G'"
      and e: "edges G' = {{0, 1}, {2, 3}} \<union> (\<lambda>i. {i}) ` ?L"
      and c: "card (edges G') = 2 + card ?L"
      and p: "\<forall>u\<in>{0, 1}. \<forall>v\<in>{2, 3}. (u, v) \<notin> path_between G' \<and> (v, u) \<notin> path_between G'"
      by (elim exE conjE)
    have eq: "G' = ?G" using G' res unfolding N S by simp
    have "finite ?L" by simp
    then have "card ?L = 0 \<longleftrightarrow> ?L = {}" by (rule card_0_eq)
    also have "\<dots> \<longleftrightarrow> (\<forall>i<4. D ! i ! i = Infinity)" by blast
    finally have "card (edges G') = 2 \<longleftrightarrow> (\<forall>i<4. D ! i ! i = Infinity)"
      unfolding c by simp
    then show ?thesis using e c p unfolding eq by (intro conjI)
  qed
  show ?thesis
  proof (rule exI [of _ ?G], intro conjI)
    show "generate_graph N D S = Inr ?G" by (rule res)
    show "\<forall>u v. has_edge ?G u v \<longleftrightarrow>
        u \<in> set S \<and> v \<in> set S \<and> (D ! u ! v \<noteq> Infinity \<or> D ! v ! u \<noteq> Infinity)"
      by (intro allI) (rule edge)
    show "\<forall>u v. has_edge ?G u v \<longrightarrow>
        adj ?G (u, v) = adj ?G (v, u) \<and> adj ?G (u, v) \<noteq> Some Infinity \<and>
        (adj ?G (u, v) = Some (D ! u ! v) \<or> adj ?G (u, v) = Some (D ! v ! u))"
    proof (intro allI impI)
      fix u v assume "has_edge ?G u v"
      note w = weight [OF this]
      show "adj ?G (u, v) = adj ?G (v, u) \<and> adj ?G (u, v) \<noteq> Some Infinity \<and>
        (adj ?G (u, v) = Some (D ! u ! v) \<or> adj ?G (u, v) = Some (D ! v ! u))"
      proof (intro conjI)
        show "adj ?G (u, v) = adj ?G (v, u)" by (rule sym)
        show "adj ?G (u, v) \<noteq> Some Infinity" using w by (rule conjunct1)
        show "adj ?G (u, v) = Some (D ! u ! v) \<or> adj ?G (u, v) = Some (D ! v ! u)"
          using w by (rule conjunct2)
      qed
    qed
    show "symmetric N D \<longrightarrow> (\<forall>u v. has_edge ?G u v \<longrightarrow> adj ?G (u, v) = Some (D ! u ! v))"
      by (intro allI impI) (rule wsym)
    show "\<forall>u\<in>set S. D ! u ! u \<noteq> Infinity \<longrightarrow> has_edge ?G u u"
      by (intro ballI impI) (rule loop)
    show "nodes ?G = {u. \<exists>v. has_edge ?G u v}" by (rule nodes)
    show "N = 4 \<and> S = [0, 1, 2, 3] \<and>
      (\<forall>i<4. \<forall>j<4. i \<noteq> j \<longrightarrow>
         (D ! i ! j \<noteq> Infinity) = ((i, j) \<in> {(0, 1), (1, 0), (2, 3), (3, 2)})) \<longrightarrow>
        edges ?G = {{0, 1}, {2, 3}} \<union> (\<lambda>i. {i}) ` {i. i < 4 \<and> D ! i ! i \<noteq> Infinity} \<and>
        card (edges ?G) = 2 + card {i. i < 4 \<and> D ! i ! i \<noteq> Infinity} \<and>
        (card (edges ?G) = 2 \<longleftrightarrow> (\<forall>i<4. D ! i ! i = Infinity)) \<and>
        (\<forall>u\<in>{0, 1}. \<forall>v\<in>{2, 3}. (u, v) \<notin> path_between ?G \<and> (v, u) \<notin> path_between ?G)"
      by (intro impI) (rule example)
  qed
qed

lemma D4_finite:
  "\<forall>i<4. \<forall>j<4. (D4 ! i ! j \<noteq> Infinity) = ((i, j) \<in> {(0, 1), (1, 0), (2, 3), (3, 2)})"
proof (intro allI impI)
  fix i j :: nat assume "i < 4" "j < 4"
  then consider "i = 0" | "i = 1" | "i = 2" | "i = 3" by arith
  then show "(D4 ! i ! j \<noteq> Infinity) = ((i, j) \<in> {(0, 1), (1, 0), (2, 3), (3, 2)})"
  proof cases
    case 1
    from \<open>j < 4\<close> consider "j = 0" | "j = 1" | "j = 2" | "j = 3" by arith
    then show ?thesis by cases (simp_all add: 1 D4_def)
  next
    case 2
    from \<open>j < 4\<close> consider "j = 0" | "j = 1" | "j = 2" | "j = 3" by arith
    then show ?thesis by cases (simp_all add: 2 D4_def)
  next
    case 3
    from \<open>j < 4\<close> consider "j = 0" | "j = 1" | "j = 2" | "j = 3" by arith
    then show ?thesis by cases (simp_all add: 3 D4_def)
  next
    case 4
    from \<open>j < 4\<close> consider "j = 0" | "j = 1" | "j = 2" | "j = 3" by arith
    then show ?thesis by cases (simp_all add: 4 D4_def)
  qed
qed

lemma D4_symmetric: "symmetric 4 D4"
  unfolding symmetric_def
proof (intro allI impI)
  fix i j :: nat assume ij: "i < 4" "j < 4"
  from ij(1) consider "i = 0" | "i = 1" | "i = 2" | "i = 3" by arith
  then show "D4 ! i ! j = D4 ! j ! i"
  proof cases
    case 1
    from ij(2) consider "j = 0" | "j = 1" | "j = 2" | "j = 3" by arith
    then show ?thesis by cases (simp_all add: 1 D4_def)
  next
    case 2
    from ij(2) consider "j = 0" | "j = 1" | "j = 2" | "j = 3" by arith
    then show ?thesis by cases (simp_all add: 2 D4_def)
  next
    case 3
    from ij(2) consider "j = 0" | "j = 1" | "j = 2" | "j = 3" by arith
    then show ?thesis by cases (simp_all add: 3 D4_def)
  next
    case 4
    from ij(2) consider "j = 0" | "j = 1" | "j = 2" | "j = 3" by arith
    then show ?thesis by cases (simp_all add: 4 D4_def)
  qed
qed

text \<open>Claim C7 on the four-node matrix with an infinite diagonal, and on a matrix of two
  nodes with a zero diagonal, where both nodes get a self-loop.\<close>

theorem generate_graph_edges_witness:
  "square 4 D4 \<and>
   (\<exists>G. generate_graph 4 D4 [0, 1, 2, 3] = Inr G \<and>
      edges G = {{0, 1}, {2, 3}} \<and> card (edges G) = 2 \<and>
      adj G (0, 1) = Some (Finite 5) \<and> adj G (3, 2) = Some (Finite 7) \<and>
      (0, 2) \<notin> path_between G \<and> (3, 1) \<notin> path_between G) \<and>
   (\<exists>G. generate_graph 2 D2 [0, 1] = Inr G \<and> has_edge G 0 0 \<and> has_edge G 1 1 \<and>
      \<not> has_edge G 0 1)"
proof -
  have sq4: "square 4 D4" by (simp add: square_def D4_def)
  have S4: "\<forall>i\<in>set [0, 1, 2, 3 :: nat]. i < 4" by simp
  from generate_graph_edges [OF sq4 S4]
  obtain G where G: "generate_graph 4 D4 [0, 1, 2, 3] = Inr G"
    and edge: "\<forall>u v. has_edge G u v \<longleftrightarrow> u \<in> set [0, 1, 2, 3] \<and> v \<in> set [0, 1, 2, 3] \<and>
        (D4 ! u ! v \<noteq> Infinity \<or> D4 ! v ! u \<noteq> Infinity)"
    and w: "symmetric 4 D4 \<longrightarrow> (\<forall>u v. has_edge G u v \<longrightarrow> adj G (u, v) = Some (D4 ! u ! v))"
    and ex: "4 = (4::nat) \<and> [0, 1, 2, 3] = [0, 1, 2, 3 :: nat] \<and>
      (\<forall>i<4. \<forall>j<4. i \<noteq> j \<longrightarrow>
         (D4 ! i ! j \<noteq> Infinity) = ((i, j) \<in> {(0, 1), (1, 0), (2, 3), (3, 2)})) \<longrightarrow>
        edges G = {{0, 1}, {2, 3}} \<union> (\<lambda>i. {i}) ` {i. i < 4 \<and> D4 ! i ! i \<noteq> Infinity} \<and>
        card (edges G) = 2 + card {i. i < 4 \<and> D4 ! i ! i \<noteq> Infinity} \<and>
        (card (edges G) = 2 \<longleftrightarrow> (\<forall>i<4. D4 ! i ! i = Infinity)) \<and>
        (\<forall>u\<in>{0, 1}. \<forall>v\<in>{2, 3}. (u, v) \<notin> path_between G \<and> (v, u) \<notin> path_between G)"
    by (elim exE conjE)
  have off: "\<forall>i<4. \<forall>j<4. i \<noteq> j \<longrightarrow>
         (D4 ! i ! j \<noteq> Infinity) = ((i, j) \<in> {(0, 1), (1, 0), (2, 3), (3, 2)})"
    using D4_finite by blast
  have diag: "\<forall>i<4. D4 ! i ! i = Infinity"
  proof (intro allI impI)
    fix i :: nat assume i: "i < 4"
    have "(i, i) \<notin> {(0, 1), (1, 0), (2, 3), (3, 2 :: nat)}" by auto
    then show "D4 ! i ! i = Infinity" using D4_finite i by blast
  qed
  then have none: "{i. i < 4 \<and> D4 ! i ! i \<noteq> Infinity} = {}" by blast
  have "4 = (4::nat) \<and> [0, 1, 2, 3] = [0, 1, 2, 3 :: nat] \<and>
      (\<forall>i<4. \<forall>j<4. i \<noteq> j \<longrightarrow>
         (D4 ! i ! j \<noteq> Infinity) = ((i, j) \<in> {(0, 1), (1, 0), (2, 3), (3, 2)}))"
    by (intro conjI refl off)
  with ex have "edges G = {{0, 1}, {2, 3}} \<union> (\<lambda>i. {i}) ` {i. i < 4 \<and> D4 ! i ! i \<noteq> Infinity} \<and>
        card (edges G) = 2 + card {i. i < 4 \<and> D4 ! i ! i \<noteq> Infinity} \<and>
        (card (edges G) = 2 \<longleftrightarrow> (\<forall>i<4. D4 ! i ! i = Infinity)) \<and>
        (\<forall>u\<in>{0, 1}. \<forall>v\<in>{2, 3}. (u, v) \<notin> path_between G \<and> (v, u) \<notin> path_between G)"
    by (rule mp)
  then have four: "edges G = {{0, 1}, {2, 3}} \<union> (\<lambda>i. {i}) ` {} \<and>
        card (edges G) = 2 + card ({} :: nat set) \<and>
        (card (edges G) = 2 \<longleftrightarrow> (\<forall>i<4. D4 ! i ! i = Infinity)) \<and>
        (\<forall>u\<in>{0, 1}. \<forall>v\<in>{2, 3}. (u, v) \<notin> path_between G \<and> (v, u) \<notin> path_between G)"
    unfolding none .
  have e: "edges G = {{0, 1}, {2, 3}} \<union> (\<lambda>i. {i}) ` {}"
    using four by (rule conjunct1)
  have c: "card (edges G) = 2 + card ({} :: nat set)"
    using four by (rule conjunct2 [THEN conjunct1])
  have np: "\<forall>u\<in>{0, 1}. \<forall>v\<in>{2, 3}. (u, v) \<notin> path_between G \<and> (v, u) \<notin> path_between G"
    using four by (rule conjunct2 [THEN conjunct2, THEN conjunct2])
  have e4: "edges G = {{0, 1}, {2, 3}}" "card (edges G) = 2"
    unfolding c using e by simp_all
  have h01: "has_edge G 0 1" and h32: "has_edge G 3 2"
    using edge by (simp_all add: D4_def)
  have wt: "\<forall>u v. has_edge G u v \<longrightarrow> adj G (u, v) = Some (D4 ! u ! v)"
    using w D4_symmetric by (rule mp)
  have a01: "adj G (0, 1) = Some (Finite 5)" and a32: "adj G (3, 2) = Some (Finite 7)"
    using wt [rule_format, OF h01] wt [rule_format, OF h32] by (simp_all add: D4_def)
  have p: "(0, 2) \<notin> path_between G" "(3, 1) \<notin> path_between G"
    using np by simp_all
  have sq2: "square 2 D2" by (simp add: square_def D2_def)
  have S2: "\<forall>i\<in>set [0, 1 :: nat]. i < 2" by simp
  from generate_graph_edges [OF sq2 S2]
  obtain H where H: "generate_graph 2 D2 [0, 1] = Inr H"
    and edge2: "\<forall>u v. has_edge H u v \<longleftrightarrow> u \<in> set [0, 1] \<and> v \<in> set [0, 1] \<and>
        (D2 ! u ! v \<noteq> Infinity \<or> D2 ! v ! u \<noteq> Infinity)"
    by (elim exE conjE)
  have l: "has_edge H 0 0" "has_edge H 1 1" "\<not> has_edge H 0 1"
    using edge2 by (simp_all add: D2_def)
  have 1: "\<exists>G. generate_graph 4 D4 [0, 1, 2, 3] = Inr G \<and>
      edges G = {{0, 1}, {2, 3}} \<and> card (edges G) = 2 \<and>
      adj G (0, 1) = Some (Finite 5) \<and> adj G (3, 2) = Some (Finite 7) \<and>
      (0, 2) \<notin> path_between G \<and> (3, 1) \<notin> path_between G"
    using G e4 a01 a32 p by (intro exI [of _ G] conjI)
  have 2: "\<exists>G. generate_graph 2 D2 [0, 1] = Inr G \<and> has_edge G 0 0 \<and> has_edge G 1 1 \<and>
      \<not> has_edge G 0 1"
    using H l by (intro exI [of _ H] conjI)
  show ?thesis using sq4 1 2 by (intro conjI)
qed

lemma D4z_off_diagonal:
  "\<forall>i<4. \<forall>j<4. i \<noteq> j \<longrightarrow>
     (D4z ! i ! j \<noteq> Infinity) = ((i, j) \<in> {(0, 1), (1, 0), (2, 3), (3, 2)})"
proof (intro allI impI)
  fix i j :: nat assume "i < 4" "j < 4" "i \<noteq> j"
  from \<open>i < 4\<close> consider "i = 0" | "i = 1" | "i = 2" | "i = 3" by arith
  then show "(D4z ! i ! j \<noteq> Infinity) = ((i, j) \<in> {(0, 1), (1, 0), (2, 3), (3, 2)})"
  proof cases
    case 1
    from \<open>j < 4\<close> \<open>i \<noteq> j\<close> 1 consider "j = 1" | "j = 2" | "j = 3" by arith
    then show ?thesis by cases (simp_all add: 1 D4z_def)
  next
    case 2
    from \<open>j < 4\<close> \<open>i \<noteq> j\<close> 2 consider "j = 0" | "j = 2" | "j = 3" by arith
    then show ?thesis by cases (simp_all add: 2 D4z_def)
  next
    case 3
    from \<open>j < 4\<close> \<open>i \<noteq> j\<close> 3 consider "j = 0" | "j = 1" | "j = 3" by arith
    then show ?thesis by cases (simp_all add: 3 D4z_def)
  next
    case 4
    from \<open>j < 4\<close> \<open>i \<noteq> j\<close> 4 consider "j = 0" | "j = 1" | "j = 2" by arith
    then show ?thesis by cases (simp_all add: 4 D4z_def)
  qed
qed

lemma D4z_diagonal: "{i. i < 4 \<and> D4z ! i ! i \<noteq> Infinity} = {0, 1, 2, 3}"
proof (rule set_eqI)
  fix i :: nat
  show "i \<in> {i. i < 4 \<and> D4z ! i ! i \<noteq> Infinity} \<longleftrightarrow> i \<in> {0, 1, 2, 3}"
  proof
    assume "i \<in> {i. i < 4 \<and> D4z ! i ! i \<noteq> Infinity}"
    then have "i < 4" by simp
    then show "i \<in> {0, 1, 2, 3}" by auto
  next
    assume "i \<in> {0, 1, 2, 3}"
    then consider "i = 0" | "i = 1" | "i = 2" | "i = 3" by auto
    then show "i \<in> {i. i < 4 \<and> D4z ! i ! i \<noteq> Infinity}"
      by cases (simp_all add: D4z_def)
  qed
qed

text \<open>
  Claim C7 as stated fails for a four-node matrix with a zero diagonal: its only finite
  distances off the diagonal are between 0 and 1 and between 2 and 3, and the graph has
  six edges, four of them self-loops.
\<close>

theorem generate_graph_zero_diagonal_counterexample:
  "D4z = [[Finite 0, Finite 5, Infinity, Infinity],
          [Finite 5, Finite 0, Infinity, Infinity],
          [Infinity, Infinity, Finite 0, Finite 7],
          [Infinity, Infinity, Finite 7, Finite 0]] \<and>
   (\<exists>G. generate_graph 4 D4z [0, 1, 2, 3] = Inr G \<and>
      edges G = {{0, 1}, {2, 3}, {0}, {1}, {2}, {3}} \<and> card (edges G) = 6 \<and>
      card (edges G) \<noteq> 2)"
proof -
  have sq: "square 4 D4z" by (simp add: square_def D4z_def)
  from four_node_graph [OF sq D4z_off_diagonal]
  obtain G where G: "generate_graph 4 D4z [0, 1, 2, 3] = Inr G"
    and e: "edges G = {{0, 1}, {2, 3}} \<union> (\<lambda>i. {i}) ` {i. i < 4 \<and> D4z ! i ! i \<noteq> Infinity}"
    and c: "card (edges G) = 2 + card {i. i < 4 \<and> D4z ! i ! i \<noteq> Infinity}"
    by (elim exE conjE)
  have e': "edges G = {{0, 1}, {2, 3}, {0}, {1}, {2}, {3}}"
    unfolding e D4z_diagonal by auto
  have c': "card (edges G) = 6"
    unfolding c D4z_diagonal by simp
  have "\<exists>G. generate_graph 4 D4z [0, 1, 2, 3] = Inr G \<and>
      edges G = {{0, 1}, {2, 3}, {0}, {1}, {2}, {3}} \<and> card (edges G) = 6 \<and>
      card (edges G) \<noteq> 2"
    using G e' c' by (intro exI [of _ G] conjI) simp_all
  then show ?thesis by (simp add: D4z_def)
qed

section \<open>The normalized adjacency matrix\<close>

lemma index2_less:
  assumes "i < r" "j < c"
  shows "i * c + j < r * (c::nat)"
proof -
  have "i * c + j < i * c + c" using assms(2) by simp
  also have "\<dots> = Suc i * c" by simp
  also have "\<dots> \<le> r * c" using assms(1) by (intro mult_le_mono1) simp
  finally show ?thesis .
qed

lemma length_concat_rows:
  "length (concat (map (\<lambda>i. map (f i) [0..<c]) [0..<r])) = r * c"
  by (induction r) simp_all

lemma concat_rows_nth:
  assumes "i < r" "j < c"
  shows "concat (map (\<lambda>i. map (f i) [0..<c]) [0..<r]) ! (i * c + j) = f i j"
  using assms(1)
proof (induction r)
  case 0
  then show ?case by simp
next
  case (Suc r)
  let ?pre = "concat (map (\<lambda>i. map (f i) [0..<c]) [0..<r])"
  have split: "concat (map (\<lambda>i. map (f i) [0..<c]) [0..<Suc r]) = ?pre @ map (f r) [0..<c]"
    by simp
  show ?case
  proof (cases "i < r")
    case True
    then have "i * c + j < length ?pre"
      using assms(2) by (simp add: length_concat_rows index2_less)
    then show ?thesis unfolding split using Suc.IH True by (simp add: nth_append)
  next
    case False
    then have i: "i = r" using Suc.prems by simp
    have "(?pre @ map (f r) [0..<c]) ! (r * c + j) = map (f r) [0..<c] ! j"
      using nth_append_length_plus [of ?pre "map (f r) [0..<c]" j]
      by (simp only: length_concat_rows)
    then show ?thesis unfolding split i using assms(2) by simp
  qed
qed

lemma shape_tabulate2 [simp]: "shape (tabulate2 r c f) = [r, c]"
  by (simp add: tabulate2_def)

lemma length_flat_tabulate2 [simp]: "length (flat (tabulate2 r c f)) = r * c"
  by (simp add: tabulate2_def length_concat_rows)

lemma at2_tabulate2: "i < r \<Longrightarrow> j < c \<Longrightarrow> at2 (tabulate2 r c f) i j = f i j"
  by (simp add: at2_def tabulate2_def concat_rows_nth)

lemma broadcast_dim_same [simp]: "broadcast_dim n n = Inr n"
  by (simp add: broadcast_dim_def)

lemma broadcast_dim_one_left [simp]: "broadcast_dim (Suc 0) n = Inr n"
  by (simp add: broadcast_dim_def)

lemma broadcast_dim_one_right [simp]: "broadcast_dim n (Suc 0) = Inr n"
  by (simp add: broadcast_dim_def)

lemma degrees_nth:
  assumes "shape A = [n, n]" "i < n"
  shows "floor_degrees fa (np_sum_axis1 fa A) ! i = float_degree fa A i"
  using assms by (simp add: floor_degrees_def np_sum_axis1_def float_degree_def Let_def)

lemma length_degrees:
  "shape A = [n, n] \<Longrightarrow> length (floor_degrees fa (np_sum_axis1 fa A)) = n"
  by (simp add: floor_degrees_def np_sum_axis1_def)

lemma scale_rows:
  assumes "shape A = [n, n]" "length d = n"
  shows "np_multiply fa (reshape_column d) A =
           Inr (tabulate2 n n (\<lambda>i j. rnd fa (d ! i * at2 A i j)))"
proof -
  have "tabulate2 n n (\<lambda>i j. rnd fa (at2 (reshape_column d) (if n = 1 then 0 else i) 0 *
            at2 A (if n = 1 then 0 else i) (if n = 1 then 0 else j))) =
        tabulate2 n n (\<lambda>i j. rnd fa (d ! i * at2 A i j))"
    unfolding tabulate2_def
    by (auto simp: at2_def reshape_column_def assms intro!: arg_cong [where f = concat])
  then show ?thesis
    using assms by (simp add: np_multiply_def broadcast2_def reshape_column_def)
qed

lemma scale_columns:
  assumes "shape X = [n, n]" "length d = n"
  shows "np_multiply fa X (reshape_row d) =
           Inr (tabulate2 n n (\<lambda>i j. rnd fa (at2 X i j * d ! j)))"
proof -
  have "tabulate2 n n (\<lambda>i j. rnd fa (at2 X (if n = 1 then 0 else i) (if n = 1 then 0 else j) *
            at2 (reshape_row d) 0 (if n = 1 then 0 else j))) =
        tabulate2 n n (\<lambda>i j. rnd fa (at2 X i j * d ! j))"
    unfolding tabulate2_def
    by (auto simp: at2_def reshape_row_def assms intro!: arg_cong [where f = concat])
  then show ?thesis
    using assms by (simp add: np_multiply_def broadcast2_def reshape_row_def)
qed

lemma add_same_shape:
  assumes "shape X = [n, n]" "shape Y = [n, n]"
  shows "np_add fa X Y = Inr (tabulate2 n n (\<lambda>i j. rnd fa (at2 X i j + at2 Y i j)))"
proof -
  have "tabulate2 n n (\<lambda>i j. rnd fa (at2 X (if n = 1 then 0 else i) (if n = 1 then 0 else j) +
            at2 Y (if n = 1 then 0 else i) (if n = 1 then 0 else j))) =
        tabulate2 n n (\<lambda>i j. rnd fa (at2 X i j + at2 Y i j))"
    unfolding tabulate2_def
    by (auto intro!: arg_cong [where f = concat])
  then show ?thesis
    using assms by (simp add: np_add_def broadcast2_def)
qed

lemma at2_scalar_mul:
  assumes "shape Y = [n, n]" "length (flat Y) = n * n" "i < n" "j < n"
  shows "at2 (astype_float32 fa (scalar_mul fa k Y)) i j = to_float32 fa (rnd fa (k * at2 Y i j))"
  using assms index2_less [OF assms(3,4)]
  by (simp add: at2_def scalar_mul_def astype_float32_def)

lemma get_normalized_adj_square:
  assumes sh: "shape A = [n, n]"
  shows "\<exists>R. get_normalized_adj fa A = Inr R \<and> shape R = [n, n] \<and>
           length (flat R) = n * n \<and>
           (\<forall>i<n. \<forall>j<n. at2 R i j = float_adj_formula fa A i j)"
proof -
  let ?D = "floor_degrees fa (np_sum_axis1 fa A)"
  let ?d = "map (reciprocal_sqrt fa) ?D"
  let ?X = "tabulate2 n n (\<lambda>i j. rnd fa (?d ! i * at2 A i j))"
  let ?W = "tabulate2 n n (\<lambda>i j. rnd fa (at2 ?X i j * ?d ! j))"
  let ?Y = "tabulate2 n n (\<lambda>i j. rnd fa (at2 (np_eye n) i j + at2 ?W i j))"
  let ?k = "rnd fa (rnd fa (8 / 10) / 2)"
  let ?R = "astype_float32 fa (scalar_mul fa ?k ?Y)"
  have len: "length ?d = n" using sh by (simp add: length_degrees)
  have X: "np_multiply fa (reshape_column ?d) A = Inr ?X"
    using sh len by (rule scale_rows)
  have W: "np_multiply fa ?X (reshape_row ?d) = Inr ?W"
    using len by (intro scale_columns) simp
  have Y: "np_add fa (np_eye n) ?W = Inr ?Y"
    by (intro add_same_shape) (simp_all add: np_eye_def)
  have nd: "ndim A = 2" using sh by (simp add: ndim_def)
  have res: "get_normalized_adj fa A = Inr ?R"
    unfolding get_normalized_adj_def Let_def
    using nd sh by (simp only: X W Y bind_Inr simp_thms if_False nth_Cons_0)
  have d: "?d ! i = reciprocal_sqrt fa (float_degree fa A i)" if "i < n" for i
    using that sh by (simp add: degrees_nth length_degrees)
  have cell: "at2 ?R i j = float_adj_formula fa A i j" if ij: "i < n" "j < n" for i j
  proof -
    have "at2 ?R i j = to_float32 fa (rnd fa (?k * at2 ?Y i j))"
      using ij by (intro at2_scalar_mul) simp_all
    also have "at2 ?Y i j = rnd fa (at2 (np_eye n) i j + at2 ?W i j)"
      using ij by (rule at2_tabulate2)
    also have "at2 (np_eye n) i j = (if i = j then 1 else 0)"
      using ij by (simp add: np_eye_def at2_tabulate2)
    also have "at2 ?W i j = rnd fa (at2 ?X i j * ?d ! j)"
      using ij by (rule at2_tabulate2)
    also have "at2 ?X i j = rnd fa (?d ! i * at2 A i j)"
      using ij by (rule at2_tabulate2)
    finally show ?thesis
      unfolding float_adj_formula_def A_wave_entry_def d [OF ij(1)] d [OF ij(2)] .
  qed
  have "shape ?R = [n, n]" "length (flat ?R) = n * n"
    by (simp_all add: scalar_mul_def astype_float32_def)
  then show ?thesis using res cell by blast
qed

lemma float_degree_exact:
  assumes "shape A = [n, n]"
  shows "float_degree exact_arith A i = degree A i"
proof -
  have "sum_list (map (at2 A i) [0..<n]) = (\<Sum>j<n. at2 A i j)"
    by (simp add: interv_sum_list_conv_sum_set_nat atLeast0LessThan)
  then show ?thesis using assms
    by (simp add: float_degree_def degree_def exact_arith_def Let_def)
qed

lemma float_adj_formula_exact:
  assumes "shape A = [n, n]"
  shows "float_adj_formula exact_arith A i j = normalized_adj_formula A i j"
  unfolding float_adj_formula_def A_wave_entry_def reciprocal_sqrt_def
    float_degree_exact [OF assms] normalized_adj_formula_def
  by (simp add: exact_arith_def)

text \<open>
  Claim C4, as the code has it. An input whose number of dimensions is not 2 fails with
  the \<^verbatim>\<open>ValueError\<close> of the shape check, in every arithmetic. For every square
  two-dimensional input \<open>A\<close> the function returns, in the arithmetic of the reals, the
  \<open>n \<times> n\<close> matrix \<open>(0.8 / 2) \<cdot> (I + A_wave)\<close> with
  \<open>A_wave[i][j] = D[i]\<^sup>-\<^sup>1\<^sup>/\<^sup>2 \<cdot> A[i][j] \<cdot> D[j]\<^sup>-\<^sup>1\<^sup>/\<^sup>2\<close>, where \<open>D\<close> is the vector of the row
  sums of \<open>A\<close> with every entry \<open>\<le> 1/10000\<close> replaced by \<open>1/10000\<close>; and in every
  arithmetic of floats the \<open>n \<times> n\<close> matrix of the same formula with every operation
  rounded.
\<close>

theorem get_normalized_adj_formula:
  "(ndim A \<noteq> 2 \<longrightarrow> get_normalized_adj fa A = Inl ValueError) \<and>
   (shape A = [n, n] \<longrightarrow>
      (\<exists>R. get_normalized_adj exact_arith A = Inr R \<and> shape R = [n, n] \<and>
         length (flat R) = n * n \<and>
         (\<forall>i<n. \<forall>j<n. at2 R i j = normalized_adj_formula A i j)) \<and>
      (\<exists>R. get_normalized_adj fa A = Inr R \<and> shape R = [n, n] \<and>
         length (flat R) = n * n \<and>
         (\<forall>i<n. \<forall>j<n. at2 R i j = float_adj_formula fa A i j)))"
proof (intro conjI impI)
  assume "ndim A \<noteq> 2"
  then show "get_normalized_adj fa A = Inl ValueError"
    by (simp add: get_normalized_adj_def)
next
  assume sh: "shape A = [n, n]"
  from get_normalized_adj_square [OF sh, of exact_arith]
  show "\<exists>R. get_normalized_adj exact_arith A = Inr R \<and> shape R = [n, n] \<and>
         length (flat R) = n * n \<and>
         (\<forall>i<n. \<forall>j<n. at2 R i j = normalized_adj_formula A i j)"
    unfolding float_adj_formula_exact [OF sh] .
next
  assume "shape A = [n, n]"
  then show "\<exists>R. get_normalized_adj fa A = Inr R \<and> shape R = [n, n] \<and>
         length (flat R) = n * n \<and>
         (\<forall>i<n. \<forall>j<n. at2 R i j = float_adj_formula fa A i j)"
    by (rule get_normalized_adj_square)
qed

lemma sqrt_10000: "sqrt 10000 = 100"
  using real_sqrt_abs2 [of 100] by simp

lemma zero_row_degree: "degree zero_row 0 = 1 / 10000" "degree zero_row 1 = 4"
  by (simp_all add: degree_def zero_row_def at2_def lessThan_Suc numeral_2_eq_2)

text \<open>Claim C4 on a one-dimensional array and on a matrix with a zero row, whose degree
  is floored.\<close>

theorem get_normalized_adj_formula_witness:
  "ndim vector3 \<noteq> 2 \<and> get_normalized_adj exact_arith vector3 = Inl ValueError \<and>
   get_normalized_adj ieee_arith vector3 = Inl ValueError \<and>
   shape zero_row = [2, 2] \<and>
   (\<exists>R. get_normalized_adj exact_arith zero_row = Inr R \<and> shape R = [2, 2] \<and>
      at2 R 0 0 = 4 / 10 \<and> at2 R 0 1 = 0 \<and> at2 R 1 0 = 0 \<and> at2 R 1 1 = 8 / 10)"
proof -
  have nd: "ndim vector3 \<noteq> 2" by (simp add: ndim_def vector3_def)
  have err: "get_normalized_adj exact_arith vector3 = Inl ValueError"
    using get_normalized_adj_formula [where A = vector3 and fa = exact_arith and n = 0] nd
    by blast
  have err': "get_normalized_adj ieee_arith vector3 = Inl ValueError"
    using get_normalized_adj_formula [where A = vector3 and fa = ieee_arith and n = 0] nd
    by blast
  have sh: "shape zero_row = [2, 2]" by (simp add: zero_row_def)
  from get_normalized_adj_formula [where A = zero_row and fa = exact_arith and n = 2] sh
  obtain R where R: "get_normalized_adj exact_arith zero_row = Inr R" "shape R = [2, 2]"
    "\<forall>i<2. \<forall>j<2. at2 R i j = normalized_adj_formula zero_row i j"
    by blast
  have a: "at2 zero_row 0 0 = 0" "at2 zero_row 0 1 = 0" "at2 zero_row 1 0 = 0"
    "at2 zero_row 1 1 = 4"
    by (simp_all add: at2_def zero_row_def)
  have f: "normalized_adj_formula zero_row 0 0 = 4 / 10"
    "normalized_adj_formula zero_row 0 1 = 0"
    "normalized_adj_formula zero_row 1 0 = 0"
    "normalized_adj_formula zero_row 1 1 = 8 / 10"
    unfolding normalized_adj_formula_def zero_row_degree a
    by (simp_all add: real_sqrt_divide sqrt_10000)
  have r: "at2 R i j = normalized_adj_formula zero_row i j" if "i < 2" "j < 2" for i j
    using R(3) that by blast
  have c: "at2 R 0 0 = 4 / 10" "at2 R 0 1 = 0" "at2 R 1 0 = 0" "at2 R 1 1 = 8 / 10"
    using r [of 0 0] r [of 0 1] r [of 1 0] r [of 1 1] f by simp_all
  show ?thesis using nd err err' sh R(1,2) c by blast
qed

text \<open>
  Claim C4 as stated fails for a two-dimensional input that is not square: on a
  \<open>2 \<times> 3\<close> matrix the scaling of the columns cannot be broadcast, and the function
  raises instead of returning a matrix.
\<close>

theorem get_normalized_adj_not_square_counterexample:
  "ndim wide23 = 2 \<and> (\<forall>fa. get_normalized_adj fa wide23 = Inl ValueError)"
  by (simp add: get_normalized_adj_def ndim_def wide23_def Let_def np_multiply_def
      broadcast2_def broadcast_dim_def reshape_column_def reshape_row_def
      np_sum_axis1_def floor_degrees_def)

section \<open>The normalized adjacency matrix in IEEE 754 arithmetic\<close>

text \<open>
  The value of a rounding: a number \<open>y \<cdot> 2\<^sup>e\<close> with \<open>2\<^sup>p\<^sup>-\<^sup>1 \<le> y < 2\<^sup>p\<close> is rounded to
  \<open>m \<cdot> 2\<^sup>e\<close>, where \<open>m\<close> is the integer nearest to \<open>y\<close>, the even one of two.
\<close>

lemma round_half_even_near:
  assumes "of_int m - 1 / 2 < y" "y < of_int m + 1 / 2"
  shows "round_half_even y = m"
proof (cases "of_int m \<le> y")
  case True
  then have "\<lfloor>y\<rfloor> = m" using assms(2) by (intro floor_unique) simp_all
  then show ?thesis using assms(2) by (simp add: round_half_even_def)
next
  case False
  then have "\<lfloor>y\<rfloor> = m - 1" using assms(1) by (intro floor_unique) simp_all
  then show ?thesis using assms(1) by (simp add: round_half_even_def)
qed

lemma round_half_even_tie:
  assumes "y = of_int m + 1 / 2" "even m"
  shows "round_half_even y = m"
proof -
  have "\<lfloor>y\<rfloor> = m" unfolding assms(1) by (intro floor_unique) simp_all
  then show ?thesis using assms by (simp add: round_half_even_def)
qed

lemma round_to_eval:
  assumes "x = y * 2 powi e" "2 ^ (p - 1) \<le> y" "y < 2 ^ p" "0 < p" "round_half_even y = m"
  shows "round_to p x = of_int m * 2 powi e"
proof -
  have y: "0 < y" using assms(2) by (rule less_le_trans [rotated]) simp
  have x: "0 < x" unfolding assms(1) using y by simp
  have lo: "(2::real) powr real_of_int (e + int (p - 1)) = 2 ^ (p - 1) * 2 powi e"
    by (simp add: powr_add powr_realpow powr_real_of_int')
  have "e + int (p - 1) + 1 = e + int p" using assms(4) by simp
  moreover have "(2::real) powr real_of_int (e + int p) = 2 ^ p * 2 powi e"
    by (simp add: powr_add powr_realpow powr_real_of_int')
  ultimately have hi: "(2::real) powr real_of_int (e + int (p - 1) + 1) = 2 ^ p * 2 powi e"
    by simp
  have pw: "(0::real) < 2 powi e" by simp
  have "2 ^ (p - 1) * 2 powi e \<le> x \<and> x < 2 ^ p * 2 powi e"
    unfolding assms(1) using assms(2,3) pw by (simp only: mult_le_cancel_right_pos mult_less_cancel_right_pos simp_thms)
  then have "2 powr real_of_int (e + int (p - 1)) \<le> x \<and>
      x < 2 powr real_of_int (e + int (p - 1) + 1)"
    unfolding lo hi .
  moreover have "(1::real) < 2" by simp
  ultimately have "\<lfloor>log 2 x\<rfloor> = e + int (p - 1)"
    using floor_log_eq_powr_iff [OF x] by blast
  then have "\<lfloor>log 2 \<bar>x\<bar>\<rfloor> - int p + 1 = e" using x assms(4) by (simp add: of_nat_diff)
  moreover have "x / 2 powi e = y" unfolding assms(1) by simp
  ultimately show ?thesis using x assms(5) by (simp add: round_to_def Let_def)
qed

lemma round_5: "round_to 53 5 = 5"
proof -
  have "round_to 53 5 = of_int 5629499534213120 * 2 powi (-50)"
  proof (rule round_to_eval [where y = "5629499534213120"])
    show "round_half_even 5629499534213120 = 5629499534213120"
      by (rule round_half_even_near) simp_all
  qed simp_all
  then show ?thesis by simp
qed

lemma round_degree_1: "round_to 53 (5 + 2685808560790519 / 70368744177664) = 3037652281678839 / 70368744177664"
proof -
  have "round_to 53 (5 + 2685808560790519 / 70368744177664) = of_int 6075304563357678 * 2 powi (-47)"
  proof (rule round_to_eval [where y = "6075304563357678"])
    show "round_half_even 6075304563357678 = 6075304563357678"
      by (rule round_half_even_near) simp_all
  qed simp_all
  then show ?thesis by simp
qed

lemma round_epsilon: "round_to 53 (1 / 10000) = 7378697629483821 / 73786976294838206464"
proof -
  have "round_to 53 (1 / 10000) = of_int 7378697629483821 * 2 powi (-66)"
  proof (rule round_to_eval [where y = "4611686018427387904 / 625"])
    show "round_half_even (4611686018427387904 / 625) = 7378697629483821"
      by (rule round_half_even_near) simp_all
  qed simp_all
  then show ?thesis by simp
qed

lemma round_sqrt_0: "round_to 53 (sqrt 5) = 629397181890197 / 281474976710656"
proof -
  have lo: "10070354910243151 / 4503599627370496 < sqrt 5"
    by (rule real_less_rsqrt) (simp add: power2_eq_square)
  have hi: "sqrt 5 < 10070354910243153 / 4503599627370496"
    by (rule real_less_lsqrt) (simp_all add: power2_eq_square)
  have "round_to 53 (sqrt 5) = of_int 5035177455121576 * 2 powi (-51)"
  proof (rule round_to_eval [where y = "sqrt 5 * 2251799813685248"])
    show "round_half_even (sqrt 5 * 2251799813685248) = 5035177455121576"
      using lo hi by (intro round_half_even_near) simp_all
    show "2 ^ (53 - 1) \<le> sqrt 5 * 2251799813685248" using lo by simp
    show "sqrt 5 * 2251799813685248 < 2 ^ 53" using hi by simp
  qed simp_all
  then show ?thesis by simp
qed

lemma round_reciprocal_0: "round_to 53 (1 / (629397181890197 / 281474976710656)) = 8056283928194521 / 18014398509481984"
proof -
  have "round_to 53 (1 / (629397181890197 / 281474976710656)) = of_int 8056283928194521 * 2 powi (-54)"
  proof (rule round_to_eval [where y = "5070602400912917605986812821504 / 629397181890197"])
    show "round_half_even (5070602400912917605986812821504 / 629397181890197) = 8056283928194521"
      by (rule round_half_even_near) simp_all
  qed simp_all
  then show ?thesis by simp
qed

lemma round_sqrt_1: "round_to 53 (sqrt (3037652281678839 / 70368744177664)) = 924674594244171 / 140737488355328"
proof -
  have lo: "14794793507906735 / 2251799813685248 < sqrt (3037652281678839 / 70368744177664)"
    by (rule real_less_rsqrt) (simp add: power2_eq_square)
  have hi: "sqrt (3037652281678839 / 70368744177664) < 14794793507906737 / 2251799813685248"
    by (rule real_less_lsqrt) (simp_all add: power2_eq_square)
  have "round_to 53 (sqrt (3037652281678839 / 70368744177664)) = of_int 7397396753953368 * 2 powi (-50)"
  proof (rule round_to_eval [where y = "sqrt (3037652281678839 / 70368744177664) * 1125899906842624"])
    show "round_half_even (sqrt (3037652281678839 / 70368744177664) * 1125899906842624) = 7397396753953368"
      using lo hi by (intro round_half_even_near) simp_all
    show "2 ^ (53 - 1) \<le> sqrt (3037652281678839 / 70368744177664) * 1125899906842624" using lo by simp
    show "sqrt (3037652281678839 / 70368744177664) * 1125899906842624 < 2 ^ 53" using hi by simp
  qed simp_all
  then show ?thesis by simp
qed

lemma round_reciprocal_1: "round_to 53 (1 / (924674594244171 / 140737488355328)) = 2741830711298837 / 18014398509481984"
proof -
  have "round_to 53 (1 / (924674594244171 / 140737488355328)) = of_int 5483661422597674 * 2 powi (-55)"
  proof (rule round_to_eval [where y = "5070602400912917605986812821504 / 924674594244171"])
    show "round_half_even (5070602400912917605986812821504 / 924674594244171) = 5483661422597674"
      by (rule round_half_even_near) simp_all
  qed simp_all
  then show ?thesis by simp
qed

lemma round_row_01: "round_to 53 (8056283928194521 / 18014398509481984 * 5) = 629397181890197 / 281474976710656"
proof -
  have "round_to 53 (8056283928194521 / 18014398509481984 * 5) = of_int 5035177455121576 * 2 powi (-51)"
  proof (rule round_to_eval [where y = "40281419640972605 / 8"])
    show "round_half_even (40281419640972605 / 8) = 5035177455121576"
      by (rule round_half_even_near) simp_all
  qed simp_all
  then show ?thesis by simp
qed

lemma round_column_01: "round_to 53 (629397181890197 / 281474976710656 * (2741830711298837 / 18014398509481984)) = 6130919853260801 / 18014398509481984"
proof -
  have "round_to 53 (629397181890197 / 281474976710656 * (2741830711298837 / 18014398509481984)) = of_int 6130919853260801 * 2 powi (-54)"
  proof (rule round_to_eval [where y = "1725700522911482330084587800889 / 281474976710656"])
    show "round_half_even (1725700522911482330084587800889 / 281474976710656) = 6130919853260801"
      by (rule round_half_even_near) simp_all
  qed simp_all
  then show ?thesis by simp
qed

lemma round_add_01: "round_to 53 (0 + 6130919853260801 / 18014398509481984) = 6130919853260801 / 18014398509481984"
proof -
  have "round_to 53 (0 + 6130919853260801 / 18014398509481984) = of_int 6130919853260801 * 2 powi (-54)"
  proof (rule round_to_eval [where y = "6130919853260801"])
    show "round_half_even (6130919853260801) = 6130919853260801"
      by (rule round_half_even_near) simp_all
  qed simp_all
  then show ?thesis by simp
qed

lemma round_alpha: "round_to 53 (8 / 10) = 3602879701896397 / 4503599627370496"
proof -
  have "round_to 53 (8 / 10) = of_int 7205759403792794 * 2 powi (-53)"
  proof (rule round_to_eval [where y = "36028797018963968 / 5"])
    show "round_half_even (36028797018963968 / 5) = 7205759403792794"
      by (rule round_half_even_near) simp_all
  qed simp_all
  then show ?thesis by simp
qed

lemma round_half_alpha: "round_to 53 (3602879701896397 / 4503599627370496 / 2) = 3602879701896397 / 9007199254740992"
proof -
  have "round_to 53 (3602879701896397 / 4503599627370496 / 2) = of_int 7205759403792794 * 2 powi (-54)"
  proof (rule round_to_eval [where y = "7205759403792794"])
    show "round_half_even (7205759403792794) = 7205759403792794"
      by (rule round_half_even_near) simp_all
  qed simp_all
  then show ?thesis by simp
qed

lemma round_scale_01: "round_to 53 (3602879701896397 / 9007199254740992 * (6130919853260801 / 18014398509481984)) = 4904735882608641 / 36028797018963968"
proof -
  have "round_to 53 (3602879701896397 / 9007199254740992 * (6130919853260801 / 18014398509481984)) = of_int 4904735882608641 * 2 powi (-55)"
  proof (rule round_to_eval [where y = "22088966693266976745603923233997 / 4503599627370496"])
    show "round_half_even (22088966693266976745603923233997 / 4503599627370496) = 4904735882608641"
      by (rule round_half_even_near) simp_all
  qed simp_all
  then show ?thesis by simp
qed

lemma float32_01: "round_to 24 (4904735882608641 / 36028797018963968) = 9135783 / 67108864"
proof -
  have "round_to 24 (4904735882608641 / 36028797018963968) = of_int 9135783 * 2 powi (-26)"
  proof (rule round_to_eval [where y = "4904735882608641 / 536870912"])
    show "round_half_even (4904735882608641 / 536870912) = 9135783"
      by (rule round_half_even_near) simp_all
  qed simp_all
  then show ?thesis by simp
qed

lemma round_row_10: "round_to 53 (2741830711298837 / 18014398509481984 * 5) = 1713644194561773 / 2251799813685248"
proof -
  have "round_to 53 (2741830711298837 / 18014398509481984 * 5) = of_int 6854576778247092 * 2 powi (-53)"
  proof (rule round_to_eval [where y = "13709153556494185 / 2"])
    show "round_half_even (13709153556494185 / 2) = 6854576778247092"
      by (rule round_half_even_tie) simp_all
  qed simp_all
  then show ?thesis by simp
qed

lemma round_column_10: "round_to 53 (1713644194561773 / 2251799813685248 * (8056283928194521 / 18014398509481984)) = 91357825 / 268435456"
proof -
  have "round_to 53 (1713644194561773 / 2251799813685248 * (8056283928194521 / 18014398509481984)) = of_int 6130919853260800 * 2 powi (-54)"
  proof (rule round_to_eval [where y = "13805604183291856605454694645733 / 2251799813685248"])
    show "round_half_even (13805604183291856605454694645733 / 2251799813685248) = 6130919853260800"
      by (rule round_half_even_near) simp_all
  qed simp_all
  then show ?thesis by simp
qed

lemma round_add_10: "round_to 53 (0 + 91357825 / 268435456) = 91357825 / 268435456"
proof -
  have "round_to 53 (0 + 91357825 / 268435456) = of_int 6130919853260800 * 2 powi (-54)"
  proof (rule round_to_eval [where y = "6130919853260800"])
    show "round_half_even (6130919853260800) = 6130919853260800"
      by (rule round_half_even_near) simp_all
  qed simp_all
  then show ?thesis by simp
qed

lemma round_scale_10: "round_to 53 (3602879701896397 / 9007199254740992 * (91357825 / 268435456)) = 18271565 / 134217728"
proof -
  have "round_to 53 (3602879701896397 / 9007199254740992 * (91357825 / 268435456)) = of_int 4904735882608640 * 2 powi (-55)"
  proof (rule round_to_eval [where y = "329151253301903205256525 / 67108864"])
    show "round_half_even (329151253301903205256525 / 67108864) = 4904735882608640"
      by (rule round_half_even_near) simp_all
  qed simp_all
  then show ?thesis by simp
qed

lemma float32_10: "round_to 24 (18271565 / 134217728) = 4567891 / 33554432"
proof -
  have "round_to 24 (18271565 / 134217728) = of_int 9135782 * 2 powi (-26)"
  proof (rule round_to_eval [where y = "18271565 / 2"])
    show "round_half_even (18271565 / 2) = 9135782"
      by (rule round_half_even_tie) simp_all
  qed simp_all
  then show ?thesis by simp
qed

text \<open>The operations of \<^verbatim>\<open>get_normalized_adj\<close> on the matrix \<open>sym_float\<close>.\<close>

lemma round_to_0: "round_to p 0 = 0"
  by (simp add: round_to_def)

lemma ieee_arith_fields:
  "rnd ieee_arith = round_to 53" "to_float32 ieee_arith = round_to 24"
  "row_sum ieee_arith xs = foldl (\<lambda>s x. round_to 53 (s + x)) 0 xs"
  by (simp_all add: ieee_arith_def)

lemma sym_float_cells:
  "at2 sym_float 0 0 = 0" "at2 sym_float 0 1 = 5" "at2 sym_float 1 0 = 5"
  "at2 sym_float 1 1 = 2685808560790519 / 70368744177664"
  by (simp_all add: at2_def sym_float_def)

lemma sym_float_rows:
  "map (at2 sym_float 0) [0..<shape sym_float ! 1] = [0, 5]"
  "map (at2 sym_float 1) [0..<shape sym_float ! 1] = [5, 2685808560790519 / 70368744177664]"
  by (simp_all add: sym_float_def at2_def upt_rec numeral_2_eq_2)

lemma sym_float_degree:
  "float_degree ieee_arith sym_float 0 = 5"
  "float_degree ieee_arith sym_float 1 = 3037652281678839 / 70368744177664"
proof -
  have "row_sum ieee_arith [0, 5] = round_to 53 (round_to 53 (0 + 0) + 5)"
    unfolding ieee_arith_fields by simp
  also have "\<dots> = 5" by (simp add: round_to_0 round_5)
  finally have s0: "row_sum ieee_arith [0, 5] = 5" .
  have "row_sum ieee_arith [5, 2685808560790519 / 70368744177664] =
      round_to 53 (round_to 53 (0 + 5) + 2685808560790519 / 70368744177664)"
    unfolding ieee_arith_fields by (simp only: foldl.simps)
  also have "round_to 53 (0 + 5) = 5" by (simp add: round_5)
  also have "round_to 53 (5 + 2685808560790519 / 70368744177664) = 3037652281678839 / 70368744177664"
    by (rule round_degree_1)
  finally have s1: "row_sum ieee_arith [5, 2685808560790519 / 70368744177664] = 3037652281678839 / 70368744177664" .
  show "float_degree ieee_arith sym_float 0 = 5"
    unfolding float_degree_def sym_float_rows s0 ieee_arith_fields(1) round_epsilon
    by simp
  show "float_degree ieee_arith sym_float 1 = 3037652281678839 / 70368744177664"
    unfolding float_degree_def sym_float_rows s1 ieee_arith_fields(1) round_epsilon
    by simp
qed

lemma sym_float_reciprocal_sqrt:
  "reciprocal_sqrt ieee_arith 5 = 8056283928194521 / 18014398509481984"
  "reciprocal_sqrt ieee_arith (3037652281678839 / 70368744177664) = 2741830711298837 / 18014398509481984"
  unfolding reciprocal_sqrt_def ieee_arith_fields round_sqrt_0 round_sqrt_1
  by (rule round_reciprocal_0, rule round_reciprocal_1)

lemma sym_float_A_wave:
  "A_wave_entry ieee_arith sym_float 0 1 = 6130919853260801 / 18014398509481984"
  "A_wave_entry ieee_arith sym_float 1 0 = 91357825 / 268435456"
  unfolding A_wave_entry_def sym_float_degree sym_float_reciprocal_sqrt sym_float_cells
    ieee_arith_fields round_row_01 round_row_10
  by (rule round_column_01, rule round_column_10)

lemma sym_float_formula:
  "float_adj_formula ieee_arith sym_float 0 1 = 9135783 / 67108864"
  "float_adj_formula ieee_arith sym_float 1 0 = 4567891 / 33554432"
proof -
  have off: "(if (0::nat) = 1 then 1 else (0::real)) = 0"
    "(if (1::nat) = 0 then 1 else (0::real)) = 0"
    by simp_all
  show "float_adj_formula ieee_arith sym_float 0 1 = 9135783 / 67108864"
    unfolding float_adj_formula_def sym_float_A_wave off ieee_arith_fields
      round_alpha round_half_alpha round_add_01 round_scale_01
    by (rule float32_01)
  show "float_adj_formula ieee_arith sym_float 1 0 = 4567891 / 33554432"
    unfolding float_adj_formula_def sym_float_A_wave off ieee_arith_fields
      round_alpha round_half_alpha round_add_10 round_scale_10
    by (rule float32_10)
qed

text \<open>
  Claim C10, as the code has it. For every symmetric square matrix \<open>A\<close> the matrix that
  \<^verbatim>\<open>get_normalized_adj\<close> returns is symmetric in the arithmetic of the reals; the
  entries of \<open>A\<close> need not be non-negative. In an arithmetic of floats the entries
  \<open>[i][j]\<close> and \<open>[j][i]\<close> of the result are equal whenever those of \<^verbatim>\<open>A_wave\<close>
  are, which are the roundings of \<open>(d\<^sub>i \<cdot> a) \<cdot> d\<^sub>j\<close> and of \<open>(d\<^sub>j \<cdot> a) \<cdot> d\<^sub>i\<close>.
\<close>

theorem get_normalized_adj_symmetric:
  "shape A = [n, n] \<and> (\<forall>i<n. \<forall>j<n. at2 A i j = at2 A j i) \<longrightarrow>
     (\<exists>R. get_normalized_adj exact_arith A = Inr R \<and> shape R = [n, n] \<and>
        (\<forall>i<n. \<forall>j<n. at2 R i j = at2 R j i)) \<and>
     (\<exists>R. get_normalized_adj fa A = Inr R \<and> shape R = [n, n] \<and>
        (\<forall>i<n. \<forall>j<n. A_wave_entry fa A i j = A_wave_entry fa A j i \<longrightarrow>
           at2 R i j = at2 R j i))"
proof
  assume h: "shape A = [n, n] \<and> (\<forall>i<n. \<forall>j<n. at2 A i j = at2 A j i)"
  then have sh: "shape A = [n, n]" by simp
  from get_normalized_adj_square [OF sh, of exact_arith]
  obtain R where R: "get_normalized_adj exact_arith A = Inr R" "shape R = [n, n]"
    "\<forall>i<n. \<forall>j<n. at2 R i j = normalized_adj_formula A i j"
    unfolding float_adj_formula_exact [OF sh] by blast
  have "at2 R i j = at2 R j i" if ij: "i < n" "j < n" for i j
  proof -
    have "at2 A i j = at2 A j i" using h ij by blast
    then have "normalized_adj_formula A i j = normalized_adj_formula A j i"
      by (cases "i = j") (simp_all add: normalized_adj_formula_def mult.commute mult.left_commute)
    then show ?thesis using R(3) ij by simp
  qed
  then have exact: "\<exists>R. get_normalized_adj exact_arith A = Inr R \<and> shape R = [n, n] \<and>
        (\<forall>i<n. \<forall>j<n. at2 R i j = at2 R j i)"
    using R(1,2) by blast
  from get_normalized_adj_square [OF sh, of fa]
  obtain Q where Q: "get_normalized_adj fa A = Inr Q" "shape Q = [n, n]"
    "\<forall>i<n. \<forall>j<n. at2 Q i j = float_adj_formula fa A i j"
    by blast
  have "at2 Q i j = at2 Q j i"
    if ij: "i < n" "j < n" and w: "A_wave_entry fa A i j = A_wave_entry fa A j i" for i j
  proof -
    have "float_adj_formula fa A i j = float_adj_formula fa A j i"
      unfolding float_adj_formula_def w by (cases "i = j") simp_all
    then show ?thesis using Q(3) ij by simp
  qed
  then have rounded: "\<exists>R. get_normalized_adj fa A = Inr R \<and> shape R = [n, n] \<and>
        (\<forall>i<n. \<forall>j<n. A_wave_entry fa A i j = A_wave_entry fa A j i \<longrightarrow>
           at2 R i j = at2 R j i)"
    using Q(1,2) by blast
  show "(\<exists>R. get_normalized_adj exact_arith A = Inr R \<and> shape R = [n, n] \<and>
        (\<forall>i<n. \<forall>j<n. at2 R i j = at2 R j i)) \<and>
     (\<exists>R. get_normalized_adj fa A = Inr R \<and> shape R = [n, n] \<and>
        (\<forall>i<n. \<forall>j<n. A_wave_entry fa A i j = A_wave_entry fa A j i \<longrightarrow>
           at2 R i j = at2 R j i))"
    using exact rounded by (rule conjI)
qed

text \<open>Claim C10 on a symmetric \<open>2 \<times> 2\<close> matrix in the arithmetic of the reals.\<close>

theorem get_normalized_adj_symmetric_witness:
  "shape sym22 = [2, 2] \<and> at2 sym22 0 1 = at2 sym22 1 0 \<and>
   (\<exists>R. get_normalized_adj exact_arith sym22 = Inr R \<and> shape R = [2, 2] \<and>
      at2 R 0 1 = at2 R 1 0) \<and>
   A_wave_entry exact_arith sym22 0 1 = 3 / 4 \<and>
   A_wave_entry exact_arith sym22 1 0 = 3 / 4"
proof -
  have sh: "shape sym22 = [2, 2]" by (simp add: sym22_def)
  have a: "at2 sym22 0 1 = at2 sym22 1 0" by (simp add: at2_def sym22_def)
  have sym: "\<forall>i<2. \<forall>j<2. at2 sym22 i j = at2 sym22 j i"
  proof (intro allI impI)
    fix i j :: nat assume "i < 2" "j < 2"
    then have "(i = 0 \<or> i = 1) \<and> (j = 0 \<or> j = 1)" by arith
    then show "at2 sym22 i j = at2 sym22 j i" using a by auto
  qed
  from get_normalized_adj_symmetric [where A = sym22 and n = 2 and fa = exact_arith] sh sym
  obtain R where R: "get_normalized_adj exact_arith sym22 = Inr R" "shape R = [2, 2]"
    "\<forall>i<2. \<forall>j<2. at2 R i j = at2 R j i"
    by blast
  have r: "at2 R 0 1 = at2 R 1 0" using R(3) by simp
  have d: "float_degree exact_arith sym22 0 = 4" "float_degree exact_arith sym22 1 = 4"
    by (simp_all add: float_degree_def exact_arith_def sym22_def at2_def upt_rec
        numeral_2_eq_2)
  have c: "at2 sym22 0 1 = 3" "at2 sym22 1 0 = 3" by (simp_all add: at2_def sym22_def)
  have s: "reciprocal_sqrt exact_arith 4 = 1 / 2"
    by (simp add: reciprocal_sqrt_def exact_arith_def)
  have w: "A_wave_entry exact_arith sym22 0 1 = 3 / 4"
    "A_wave_entry exact_arith sym22 1 0 = 3 / 4"
    unfolding A_wave_entry_def d c s by (simp_all add: exact_arith_def)
  have "\<exists>R. get_normalized_adj exact_arith sym22 = Inr R \<and> shape R = [2, 2] \<and>
      at2 R 0 1 = at2 R 1 0"
    using R(1,2) r by (intro exI [of _ R] conjI)
  then show ?thesis using sh a w by (intro conjI)
qed

text \<open>
  Claim C10 as stated fails in IEEE 754 arithmetic. On the symmetric matrix
  \<open>[[0, 5], [5, 38.167635250239854]]\<close> the two products are rounded differently, and
  after the conversion to \<^verbatim>\<open>float32\<close> the entry \<open>[0][1]\<close> of the result is
  \<open>9135783 / 2\<^sup>2\<^sup>6 = 0.13613377511501312\<close> and the entry \<open>[1][0]\<close> is
  \<open>4567891 / 2\<^sup>2\<^sup>5 = 0.13613376021385193\<close>.
\<close>

theorem get_normalized_adj_asymmetric_counterexample:
  "shape sym_float = [2, 2] \<and>
   at2 sym_float 0 1 = 5 \<and> at2 sym_float 1 0 = 5 \<and>
   (\<exists>R. get_normalized_adj ieee_arith sym_float = Inr R \<and>
      at2 R 0 1 = 9135783 / 67108864 \<and> at2 R 1 0 = 4567891 / 33554432 \<and>
      at2 R 0 1 \<noteq> at2 R 1 0)"
proof -
  have sh: "shape sym_float = [2, 2]" by (simp add: sym_float_def)
  from get_normalized_adj_square [OF sh, of ieee_arith]
  obtain R where R: "get_normalized_adj ieee_arith sym_float = Inr R"
    and cells: "\<forall>i<2. \<forall>j<2. at2 R i j = float_adj_formula ieee_arith sym_float i j"
    by (elim exE conjE)
  have a: "at2 R 0 1 = 9135783 / 67108864"
    using cells sym_float_formula(1) by simp
  have b: "at2 R 1 0 = 4567891 / 33554432"
    using cells sym_float_formula(2) by simp
  have "\<exists>R. get_normalized_adj ieee_arith sym_float = Inr R \<and>
      at2 R 0 1 = 9135783 / 67108864 \<and> at2 R 1 0 = 4567891 / 33554432 \<and>
      at2 R 0 1 \<noteq> at2 R 1 0"
    using R a b by (intro exI [of _ R] conjI) simp_all
  then show ?thesis using sh sym_float_cells(2,3) by (intro conjI)
qed

end
